theory Spec2Isabelle
  imports Main "HOL-Library.Word"
begin

unbundle bit_operations_syntax

section \<open>The rtnetlink transport layer of netmirage (src/netlink.c)\<close>

text \<open>
  The module builds one netlink message at a time in a process-wide byte buffer, sends
  it over a raw socket and correlates the kernel's responses. The embedding keeps the
  buffer as a list of bytes, the context as a record, and the system calls as a script
  of outcomes that the call consumes.

  Sizes (\<open>size_t\<close>) are natural numbers: the sums the module forms are bounded by the
  size of one allocation, so they are not reduced modulo \<open>2 ^ 64\<close>; the differences of
  \<open>nlPopAttr\<close>, which C computes with wrap-around, are written out with it. The fields
  that the wire format fixes are words of their width. Multi-byte fields are stored in
  host byte order, taken to be little-endian. \<open>realloc\<close> is taken to succeed. Logging
  (\<open>lprintf\<close>, \<open>lprintln\<close>) is not part of the model.
\<close>

subsection \<open>Bytes and fields\<close>

type_synonym byte = "8 word"
type_synonym u16 = "16 word"
type_synonym u32 = "32 word"

definition put16 :: "u16 \<Rightarrow> byte list" where
  "put16 w = [ucast w, ucast (drop_bit 8 w)]"

definition put32 :: "u32 \<Rightarrow> byte list" where
  "put32 w = [ucast w, ucast (drop_bit 8 w), ucast (drop_bit 16 w), ucast (drop_bit 24 w)]"

text \<open>Reads are used only below the length of the list; each caller checks its bound.\<close>

definition get16 :: "byte list \<Rightarrow> nat \<Rightarrow> u16" where
  "get16 m off = ucast (m ! off) OR push_bit 8 (ucast (m ! (off + 1)))"

definition get32 :: "byte list \<Rightarrow> nat \<Rightarrow> u32" where
  "get32 m off =
     ucast (m ! off) OR push_bit 8 (ucast (m ! (off + 1)))
       OR push_bit 16 (ucast (m ! (off + 2))) OR push_bit 24 (ucast (m ! (off + 3)))"

text \<open>
  \<open>store off bs m\<close> overwrites \<open>length bs\<close> bytes of \<open>m\<close> from offset \<open>off\<close>, as
  \<open>memcpy\<close> or a field assignment does. Every use is preceded by a reservation or a
  bound check that puts the range inside the allocation.
\<close>

definition store :: "nat \<Rightarrow> byte list \<Rightarrow> byte list \<Rightarrow> byte list" where
  "store off bs m = take off m @ bs @ drop (off + length bs) m"

subsection \<open>Constants of the kernel headers\<close>

text \<open>
  From \<open>linux/netlink.h\<close>, \<open>linux/rtnetlink.h\<close> and \<open>errno.h\<close> (system headers):
  \<open>struct nlmsghdr\<close> is \<open>nlmsg_len\<close> (4 bytes, offset 0), \<open>nlmsg_type\<close> (2, offset 4),
  \<open>nlmsg_flags\<close> (2, offset 6), \<open>nlmsg_seq\<close> (4, offset 8), \<open>nlmsg_pid\<close> (4, offset 12);
  \<open>struct rtattr\<close> is \<open>rta_len\<close> (2, offset 0), \<open>rta_type\<close> (2, offset 2);
  \<open>struct nlmsgerr\<close> starts with \<open>error\<close> (a signed 4-byte integer).
\<close>

definition NLMSG_ALIGN :: "nat \<Rightarrow> nat" where
  "NLMSG_ALIGN n = (n + 3) div 4 * 4"

definition NLMSG_HDRLEN :: nat where
  "NLMSG_HDRLEN = NLMSG_ALIGN 16"

definition NLMSG_LENGTH :: "nat \<Rightarrow> nat" where
  "NLMSG_LENGTH n = n + NLMSG_HDRLEN"

definition NLMSG_SPACE :: "nat \<Rightarrow> nat" where
  "NLMSG_SPACE n = NLMSG_ALIGN (NLMSG_LENGTH n)"

definition RTA_ALIGN :: "nat \<Rightarrow> nat" where
  "RTA_ALIGN n = (n + 3) div 4 * 4"

definition RTA_LENGTH :: "nat \<Rightarrow> nat" where
  "RTA_LENGTH n = RTA_ALIGN 4 + n"

definition RTA_SPACE :: "nat \<Rightarrow> nat" where
  "RTA_SPACE n = RTA_ALIGN (RTA_LENGTH n)"

definition NLM_F_REQUEST :: u16 where "NLM_F_REQUEST = 1"
definition NLMSG_ERROR :: u16 where "NLMSG_ERROR = 2"
definition NLMSG_DONE :: u16 where "NLMSG_DONE = 3"

definition EINTR :: int where "EINTR = 4"
definition EAGAIN :: int where "EAGAIN = 11"
definition EACCES :: int where "EACCES = 13"
definition ENOBUFS :: int where "ENOBUFS = 105"

text \<open>The value of a \<open>size_t\<close> computed from a difference: reduced modulo \<open>2 ^ 64\<close>.\<close>

definition size_t :: "int \<Rightarrow> nat" where
  "size_t i = nat (i mod 2 ^ 64)"

subsection \<open>The shared message buffer\<close>

text \<open>
  The static variables \<open>msgBuffer\<close>, \<open>msgBufferCap\<close> and \<open>msgBufferLen\<close>. The storage
  is the list \<open>msgBuffer\<close>; \<open>msgBufferCap\<close> is assigned only together with the
  reallocation and to its size, so it is the length of the list (0 for the initial
  \<open>NULL\<close>). \<open>fresh i\<close> is the indeterminate byte that \<open>realloc\<close> hands out at offset
  \<open>i\<close> of the allocation (\<open>0xCE\<close> everywhere in a DEBUG build); the buffer never
  shrinks, so every offset is handed out once.
\<close>

record msgBuf =
  msgBuffer :: "byte list"
  msgBufferLen :: nat
  fresh :: "nat \<Rightarrow> byte"

definition msgBufferCap :: "msgBuf \<Rightarrow> nat" where
  "msgBufferCap b = length (msgBuffer b)"

definition realloc :: "(nat \<Rightarrow> byte) \<Rightarrow> byte list \<Rightarrow> nat \<Rightarrow> byte list" where
  "realloc junk m n = take n m @ map junk [length m ..< n]"

definition nlReserveSpace :: "msgBuf \<Rightarrow> nat \<Rightarrow> msgBuf" where
  "nlReserveSpace b amount =
     (let capacity = msgBufferLen b + amount in
      if msgBufferCap b < capacity then
        (let newCapacity = capacity * 2 in
         b\<lparr>msgBuffer := realloc (fresh b) (msgBuffer b) newCapacity\<rparr>)
      else b)"

definition nlCommitSpace :: "msgBuf \<Rightarrow> nat \<Rightarrow> msgBuf" where
  "nlCommitSpace b amount = b\<lparr>msgBufferLen := msgBufferLen b + amount\<rparr>"

definition nlResetSpace :: "msgBuf \<Rightarrow> nat \<Rightarrow> msgBuf" where
  "nlResetSpace b initialCapacity = nlReserveSpace (b\<lparr>msgBufferLen := 0\<rparr>) initialCapacity"

text \<open>The tail pointer, as an offset into the buffer.\<close>

definition nlBufferTail :: "msgBuf \<Rightarrow> nat" where
  "nlBufferTail b = msgBufferLen b"

text \<open>The bytes in use: the committed region.\<close>

definition committed :: "msgBuf \<Rightarrow> byte list" where
  "committed b = take (msgBufferLen b) (msgBuffer b)"

subsection \<open>The context\<close>

text \<open>
  Modelled from the spec: \<open>struct nlContext_s\<close> and \<open>MAX_ATTR_NEST\<close> are declared in
  netlink.inl, which is not among the sources. The spec's session has a socket handle,
  a local endpoint address, an unsigned next-sequence counter and a bounded stack of
  byte offsets of open attribute headers; the counter is stored into the 32-bit header
  field \<open>nlmsg_seq\<close> and is taken to have its width. The array \<open>attrNestPos\<close> is a
  function on indices: \<open>nlPushAttr\<close> writes it below \<open>MAX_ATTR_NEST\<close> only and
  \<open>nlPopAttr\<close> reads it below \<open>attrDepth\<close> only. \<open>MAX_ATTR_NEST\<close> is a parameter of
  \<open>nlPushAttr\<close>. Of \<open>msg\<close> and \<open>iov\<close> the model keeps \<open>iov_len\<close>.
\<close>

record nlContext =
  sock :: int
  nl_pid :: u32
  nextSeq :: u32
  attrDepth :: nat
  attrNestPos :: "nat \<Rightarrow> nat"
  iov_len :: nat

subsection \<open>The message builder\<close>

definition nlInitMessage :: "nlContext \<Rightarrow> msgBuf \<Rightarrow> u16 \<Rightarrow> u16 \<Rightarrow> nlContext \<times> msgBuf" where
  "nlInitMessage ctx b msgType msgFlags =
     (let b1 = nlResetSpace b (NLMSG_SPACE 0);
          ctx1 = ctx\<lparr>attrDepth := 0\<rparr>;
          m1 = store 4 (put16 msgType) (msgBuffer b1);
          m2 = store 6 (put16 (NLM_F_REQUEST OR msgFlags)) m1;
          m3 = store 8 (put32 (nextSeq ctx1)) m2;
          ctx2 = ctx1\<lparr>nextSeq := nextSeq ctx1 + 1\<rparr>;
          m4 = store 12 (put32 (nl_pid ctx2)) m3
      in (ctx2, nlCommitSpace (b1\<lparr>msgBuffer := m4\<rparr>) NLMSG_HDRLEN))"

definition nlBufferAppend :: "msgBuf \<Rightarrow> byte list \<Rightarrow> msgBuf" where
  "nlBufferAppend b buffer =
     (let b1 = nlReserveSpace b (length buffer);
          b2 = b1\<lparr>msgBuffer := store (nlBufferTail b1) buffer (msgBuffer b1)\<rparr>
      in nlCommitSpace b2 (length buffer))"

definition nlPushAttr :: "nat \<Rightarrow> nlContext \<Rightarrow> msgBuf \<Rightarrow> u16 \<Rightarrow> int \<times> nlContext \<times> msgBuf" where
  "nlPushAttr MAX_ATTR_NEST ctx b type =
     (if attrDepth ctx \<ge> MAX_ATTR_NEST then (- 1, ctx, b)
      else
        (let b1 = nlReserveSpace b (RTA_SPACE 0);
             attr = nlBufferTail b1;
             b2 = b1\<lparr>msgBuffer := store (attr + 2) (put16 type) (msgBuffer b1)\<rparr>;
             ctx1 = ctx\<lparr>attrNestPos := (attrNestPos ctx)(attrDepth ctx := msgBufferLen b2)\<rparr>;
             ctx2 = ctx1\<lparr>attrDepth := attrDepth ctx1 + 1\<rparr>
         in (0, ctx2, nlCommitSpace b2 (RTA_LENGTH 0))))"

text \<open>
  \<open>nlPopAttr\<close> writes \<open>rta_len\<close> through a pointer computed from the stack. Where that
  field lies outside the allocation the C program has no defined behaviour: the model
  returns \<open>None\<close> there. This cannot happen after a matching \<open>nlPushAttr\<close>.
\<close>

definition nlPopAttr :: "nlContext \<Rightarrow> msgBuf \<Rightarrow> (int \<times> nlContext \<times> msgBuf) option" where
  "nlPopAttr ctx b =
     (if attrDepth ctx = 0 then Some (- 1, ctx, b)
      else
        (let ctx1 = ctx\<lparr>attrDepth := attrDepth ctx - 1\<rparr>;
             attr = attrNestPos ctx1 (attrDepth ctx1);
             payloadLen = size_t (int (nlBufferTail b) - int (attr + RTA_LENGTH 0))
         in if msgBufferCap b < attr + 2 then None
            else
              (let b1 = b\<lparr>msgBuffer :=
                          store attr (put16 (word_of_nat (RTA_LENGTH payloadLen))) (msgBuffer b)\<rparr>;
                   paddingDeficit =
                     size_t (int (RTA_SPACE payloadLen) - int (size_t (int (nlBufferTail b1) - int attr)))
               in if paddingDeficit > 0
                  then Some (0, ctx1, nlCommitSpace (nlReserveSpace b1 paddingDeficit) paddingDeficit)
                  else Some (0, ctx1, b1))))"

text \<open>A sequence of appends, as a caller issues them.\<close>

fun appends :: "msgBuf \<Rightarrow> byte list list \<Rightarrow> msgBuf" where
  "appends b [] = b"
| "appends b (p # ps) = appends (nlBufferAppend b p) ps"

text \<open>The buffer that a successful \<open>nlPopAttr\<close> leaves.\<close>

definition popped :: "nlContext \<Rightarrow> msgBuf \<Rightarrow> msgBuf" where
  "popped ctx b = (case nlPopAttr ctx b of Some (r, ctx', b') \<Rightarrow> b' | None \<Rightarrow> b)"

text \<open>
  What the builder maintains between \<open>nlInitMessage\<close> and \<open>nlSendMessage\<close>: every open
  attribute's header lies inside the committed region, and the committed region inside
  the allocation.
\<close>

definition attr_inv :: "nlContext \<Rightarrow> msgBuf \<Rightarrow> bool" where
  "attr_inv ctx b \<longleftrightarrow>
     list_all (\<lambda>i. attrNestPos ctx i + 4 \<le> msgBufferLen b) [0 ..< attrDepth ctx]
     \<and> msgBufferLen b \<le> msgBufferCap b"

subsection \<open>Concrete states\<close>

text \<open>
  The static buffer at program start (\<open>NULL\<close>, capacity 0, length 0) over a given content
  of fresh memory, and a context as \<open>nlNewContextInPlace\<close> leaves it.
\<close>

definition buf_init :: "(nat \<Rightarrow> byte) \<Rightarrow> msgBuf" where
  "buf_init junk = \<lparr>msgBuffer = [], msgBufferLen = 0, fresh = junk\<rparr>"

definition ctx0 :: nlContext where
  "ctx0 = \<lparr>sock = 3, nl_pid = 0, nextSeq = 0, attrDepth = 0, attrNestPos = (\<lambda>_. 0), iov_len = 0\<rparr>"

subsection \<open>Opening a session\<close>

text \<open>
  The three system calls of \<open>nlNewContextInPlace\<close>, each given by its return value and
  the value of \<open>errno\<close> after it; \<open>getsockname\<close> also by the port id it stores. The
  third component of the result records whether \<open>close\<close> was called on the socket.
  \<open>close\<close> is taken to leave \<open>errno\<close> as it is.
\<close>

record os_setup =
  socket_ret :: int
  socket_errno :: int
  bind_ret :: int
  bind_errno :: int
  getsockname_ret :: int
  getsockname_errno :: int
  getsockname_pid :: u32

definition nlNewContextInPlace :: "os_setup \<Rightarrow> nlContext \<Rightarrow> int \<times> nlContext \<times> bool" where
  "nlNewContextInPlace os ctx =
     (let ctx1 = ctx\<lparr>sock := socket_ret os\<rparr> in
      if sock ctx1 = - 1 then (socket_errno os, ctx1, False)
      else
        (let ctx2 = ctx1\<lparr>nl_pid := 0\<rparr> in
         if bind_ret os \<noteq> 0 then (bind_errno os, ctx2, True)
         else if getsockname_ret os \<noteq> 0 then (getsockname_errno os, ctx2, True)
         else (0, ctx2\<lparr>nl_pid := getsockname_pid os, nextSeq := 0\<rparr>, False)))"

text \<open>
  \<open>nlNewContext\<close>: \<open>mem\<close> is the content of the block \<open>malloc\<close> returns. The result is the
  returned pointer (\<open>None\<close> for \<open>NULL\<close>, otherwise the context it points to) and the
  integer behind \<open>err\<close> (\<open>None\<close> when the caller passed \<open>NULL\<close>).
\<close>

definition nlNewContext :: "os_setup \<Rightarrow> nlContext \<Rightarrow> int option \<Rightarrow> nlContext option \<times> int option" where
  "nlNewContext os mem err =
     (let (res, ctx, closed) = nlNewContextInPlace os mem in
      if res = 0 then (None, err)
      else (None, if err \<noteq> None then Some res else err))"

subsection \<open>Sending and awaiting the response\<close>

text \<open>
  The socket is a script: the outcomes of the \<open>sendmsg\<close> calls to come and those of the
  \<open>recvmsg\<close> calls to come. A call on an exhausted script never returns (\<open>Blocks\<close>), as a
  blocking socket does when nothing more arrives. \<open>sendmsg\<close> succeeds or returns \<open>-1\<close>
  with an \<open>errno\<close>; \<open>recvmsg\<close> returns \<open>-1\<close> with an \<open>errno\<close>, or delivers a datagram
  (the empty one for return value 0) and the length of the sender address. \<open>sent\<close> and
  \<open>handled\<close> record what the call did: the message passed to every \<open>sendmsg\<close> call and
  the arguments of every handler invocation. \<open>harg\<close> is the object behind \<open>arg\<close>.
\<close>

datatype send_result = Sent | SendErr int

datatype recv_result = RecvErr int | Recv "byte list" nat

datatype hcall = HCall "byte list" u32 u16 u16

type_synonym 'a nlResponseHandler = "byte list \<Rightarrow> u32 \<Rightarrow> u16 \<Rightarrow> u16 \<Rightarrow> 'a \<Rightarrow> int \<times> 'a"

record 'a world =
  sendq :: "send_result list"
  recvq :: "recv_result list"
  sent :: "byte list list"
  handled :: "hcall list"
  harg :: 'a

text \<open>
  \<open>Undefined\<close> stands for the executions on which C defines no behaviour: an access
  outside the allocation, or the negation of the least \<open>int\<close>.
\<close>

datatype result = Returns int | Blocks | Undefined

definition sizeof_sockaddr_nl :: nat where
  "sizeof_sockaddr_nl = 12"

text \<open>The transmission loop: the outcome (\<open>None\<close> when the message went out) and the
  number of \<open>sendmsg\<close> calls made.\<close>

fun send_loop :: "send_result list \<Rightarrow> result option \<times> nat" where
  "send_loop [] = (Some Blocks, 0)"
| "send_loop (Sent # q) = (None, 1)"
| "send_loop (SendErr errno # q) =
     (if errno = EAGAIN \<or> errno = EINTR
      then (case send_loop q of (r, n) \<Rightarrow> (r, Suc n))
      else (Some (Returns errno), 1))"

text \<open>\<open>NLMSG_OK\<close>, on the offset of the record and the signed count of bytes left. The
  step of \<open>NLMSG_NEXT\<close> is \<open>next\<close> and \<open>res'\<close> in the scan below.\<close>

definition NLMSG_OK :: "byte list \<Rightarrow> nat \<Rightarrow> int \<Rightarrow> bool" where
  "NLMSG_OK m off len \<longleftrightarrow>
     len \<ge> 16 \<and> unat (get32 m off) \<ge> 16 \<and> int (unat (get32 m off)) \<le> len"

text \<open>
  The scan of one received batch. The result is the value returned from inside the
  loop, if any, then \<open>foundResponse\<close>, the handler's object and the handler invocations.
\<close>

function scan ::
  "u32 \<Rightarrow> 'a nlResponseHandler option \<Rightarrow> byte list \<Rightarrow> nat \<Rightarrow> int \<Rightarrow> bool \<Rightarrow> 'a \<Rightarrow> hcall list
     \<Rightarrow> result option \<times> bool \<times> 'a \<times> hcall list" where
  "scan seq handler m nlm res foundResponse a hs =
     (if NLMSG_OK m nlm res then
        (let nlmsg_len = get32 m nlm;
             nlmsg_type = get16 m (nlm + 4);
             nlmsg_flags = get16 m (nlm + 6);
             nlmsg_seq = get32 m (nlm + 8);
             next = nlm + NLMSG_ALIGN (unat nlmsg_len);
             res' = res - int (NLMSG_ALIGN (unat nlmsg_len))
         in if nlmsg_type = NLMSG_DONE then (None, foundResponse, a, hs)
            else if nlmsg_seq \<noteq> seq then scan seq handler m next res' foundResponse a hs
            else if nlmsg_type = NLMSG_ERROR \<and> length m < nlm + NLMSG_HDRLEN + 4
              then (Some Undefined, True, a, hs)
            else if nlmsg_type = NLMSG_ERROR \<and> get32 m (nlm + NLMSG_HDRLEN) \<noteq> 0
              then (if sint (get32 m (nlm + NLMSG_HDRLEN)) = - (2 ^ 31)
                    then (Some Undefined, True, a, hs)
                    else (Some (Returns (- sint (get32 m (nlm + NLMSG_HDRLEN)))), True, a, hs))
            else
              (case handler of
                 None \<Rightarrow> scan seq handler m next res' True a hs
               | Some h \<Rightarrow>
                   (let data = take (unat (nlmsg_len - word_of_nat (NLMSG_SPACE 0)))
                                 (drop (nlm + NLMSG_HDRLEN) m);
                        len = nlmsg_len - word_of_nat (NLMSG_SPACE 0);
                        (userError, a') = h data len nlmsg_type nlmsg_flags a;
                        hs' = hs @ [HCall data len nlmsg_type nlmsg_flags]
                    in if userError \<noteq> 0 then (Some (Returns userError), True, a', hs')
                       else scan seq handler m next res' True a' hs')))
      else (None, foundResponse, a, hs))"
  by pat_completeness auto
termination
proof (relation "measure (\<lambda>(seq, handler, m, nlm, res, foundResponse, a, hs). nat res)")
  show "wf (measure (\<lambda>(seq, handler, m, nlm, res, foundResponse, a, hs). nat res))"
    by simp
qed (auto simp add: NLMSG_OK_def NLMSG_ALIGN_def)

text \<open>
  The receive loop over the script of \<open>recvmsg\<close> outcomes. \<open>res\<close> and \<open>errno\<close> are the
  return value and the error number of the call; a datagram longer than \<open>iov_len\<close> is
  cut to it.
\<close>

fun recv_loop ::
  "u32 \<Rightarrow> 'a nlResponseHandler option \<Rightarrow> nat \<Rightarrow> recv_result list \<Rightarrow> msgBuf \<Rightarrow> 'a \<Rightarrow> hcall list
     \<Rightarrow> result \<times> recv_result list \<times> msgBuf \<times> 'a \<times> hcall list" where
  "recv_loop seq handler iovlen [] b a hs = (Blocks, [], b, a, hs)"
| "recv_loop seq handler iovlen (r # q) b a hs =
     (let res = (case r of RecvErr e \<Rightarrow> - 1 | Recv bytes namelen \<Rightarrow> int (min (length bytes) iovlen));
          errno = (case r of RecvErr e \<Rightarrow> e | Recv bytes namelen \<Rightarrow> 0);
          msg_namelen = (case r of RecvErr e \<Rightarrow> sizeof_sockaddr_nl | Recv bytes namelen \<Rightarrow> namelen);
          b1 = (case r of RecvErr e \<Rightarrow> b
                | Recv bytes namelen \<Rightarrow> b\<lparr>msgBuffer := store 0 (take iovlen bytes) (msgBuffer b)\<rparr>)
      in if res < 0 then
           (if res = ENOBUFS then recv_loop seq handler iovlen q b1 a hs
            else if res = EAGAIN \<or> errno = EINTR then recv_loop seq handler iovlen q b1 a hs
            else (Returns errno, q, b1, a, hs))
         else if res = 0 then (Returns (- 1), q, b1, a, hs)
         else if msg_namelen \<noteq> sizeof_sockaddr_nl then (Returns (- 1), q, b1, a, hs)
         else
           (case scan seq handler (msgBuffer b1) 0 res False a hs of
              (Some v, found, a', hs') \<Rightarrow> (v, q, b1, a', hs')
            | (None, found, a', hs') \<Rightarrow>
                if found then (Returns 0, q, b1, a', hs')
                else recv_loop seq handler iovlen q b1 a' hs'))"

text \<open>
  \<open>nlSendMessage\<close>. The header is written and the message read through \<open>msgBuffer\<close>;
  where the header or the message does not lie inside the allocation (no message was
  begun) the result is \<open>Undefined\<close>. \<open>nlmsg_len\<close> is \<open>NLMSG_LENGTH\<close> of a pointer
  difference, a signed sum cut to 32 bits. The handler's first argument, the context
  itself, is left out.
\<close>

definition nlSendMessage ::
  "nlContext \<Rightarrow> msgBuf \<Rightarrow> 'a world \<Rightarrow> bool \<Rightarrow> 'a nlResponseHandler option
     \<Rightarrow> result \<times> nlContext \<times> msgBuf \<times> 'a world" where
  "nlSendMessage ctx b w waitResponse handler =
     (if attrDepth ctx > 0 then (Returns (- 1), ctx, b, w)
      else if msgBufferCap b < NLMSG_HDRLEN then (Undefined, ctx, b, w)
      else
        (let nlmsg_len = (word_of_int (int (nlBufferTail b) - int NLMSG_HDRLEN + int NLMSG_HDRLEN) :: u32);
             b1 = b\<lparr>msgBuffer := store 0 (put32 nlmsg_len) (msgBuffer b)\<rparr>;
             ctx1 = ctx\<lparr>iov_len := unat nlmsg_len\<rparr>
         in if msgBufferCap b1 < iov_len ctx1 then (Undefined, ctx1, b1, w)
            else
              (case send_loop (sendq w) of (r, n) \<Rightarrow>
                 (let w1 = w\<lparr>sendq := drop n (sendq w),
                              sent := sent w @ replicate n (take (iov_len ctx1) (msgBuffer b1))\<rparr>
                  in case r of
                       Some v \<Rightarrow> (v, ctx1, b1, w1)
                     | None \<Rightarrow>
                         if \<not> waitResponse then (Returns 0, ctx1, b1, w1)
                         else
                           (let seq = get32 (msgBuffer b1) 8;
                                b2 = nlResetSpace b1 4096;
                                ctx2 = ctx1\<lparr>iov_len := msgBufferCap b2\<rparr>
                            in case recv_loop seq handler (iov_len ctx2) (recvq w1) b2 (harg w1) (handled w1) of
                                 (v, q, b3, a, hs) \<Rightarrow>
                                   (v, ctx2, b3, w1\<lparr>recvq := q, harg := a, handled := hs\<rparr>))))))"

text \<open>
  One pass of the scan loop that goes on to the next record: \<open>scan_step\<close> gives the state
  in which the loop stands at the next record, and \<open>None\<close> where the pass leaves the loop
  (no further record, the end-of-batch record, a return). \<open>scan_steps k\<close> is \<open>k\<close> such
  passes from a state: the state in which the scan reaches the record behind \<open>k\<close> records
  that it skipped or accepted.
\<close>

type_synonym 'a scan_state = "nat \<times> int \<times> bool \<times> 'a \<times> hcall list"

definition scan_step ::
  "u32 \<Rightarrow> 'a nlResponseHandler option \<Rightarrow> byte list \<Rightarrow> 'a scan_state \<Rightarrow> 'a scan_state option" where
  "scan_step seq handler m s =
     (case s of (nlm, res, foundResponse, a, hs) \<Rightarrow>
        if NLMSG_OK m nlm res then
          (let nlmsg_len = get32 m nlm;
               nlmsg_type = get16 m (nlm + 4);
               nlmsg_flags = get16 m (nlm + 6);
               nlmsg_seq = get32 m (nlm + 8);
               next = nlm + NLMSG_ALIGN (unat nlmsg_len);
               res' = res - int (NLMSG_ALIGN (unat nlmsg_len))
           in if nlmsg_type = NLMSG_DONE then None
              else if nlmsg_seq \<noteq> seq then Some (next, res', foundResponse, a, hs)
              else if nlmsg_type = NLMSG_ERROR
                        \<and> (length m < nlm + NLMSG_HDRLEN + 4 \<or> get32 m (nlm + NLMSG_HDRLEN) \<noteq> 0)
                then None
              else
                (case handler of
                   None \<Rightarrow> Some (next, res', True, a, hs)
                 | Some h \<Rightarrow>
                     (let data = take (unat (nlmsg_len - word_of_nat (NLMSG_SPACE 0)))
                                   (drop (nlm + NLMSG_HDRLEN) m);
                          len = nlmsg_len - word_of_nat (NLMSG_SPACE 0);
                          (userError, a') = h data len nlmsg_type nlmsg_flags a
                      in if userError \<noteq> 0 then None
                         else Some (next, res', True, a', hs @ [HCall data len nlmsg_type nlmsg_flags]))))
        else None)"

fun scan_steps ::
  "u32 \<Rightarrow> 'a nlResponseHandler option \<Rightarrow> byte list \<Rightarrow> nat \<Rightarrow> 'a scan_state \<Rightarrow> 'a scan_state option" where
  "scan_steps seq handler m 0 s = Some s"
| "scan_steps seq handler m (Suc k) s =
     (case scan_step seq handler m s of
        None \<Rightarrow> None
      | Some s' \<Rightarrow> scan_steps seq handler m k s')"

text \<open>
  \<open>awaiting b\<close> is the buffer at the first \<open>recvmsg\<close> of an \<open>nlSendMessage\<close> call that
  found the buffer \<open>b\<close>, and \<open>received b bytes\<close> the content of a buffer after \<open>recvmsg\<close>
  has delivered \<open>bytes\<close> into it.
\<close>

definition awaiting :: "msgBuf \<Rightarrow> msgBuf" where
  "awaiting b =
     nlResetSpace
       (b\<lparr>msgBuffer :=
            store 0 (put32 (word_of_int (int (nlBufferTail b) - int NLMSG_HDRLEN + int NLMSG_HDRLEN)))
              (msgBuffer b)\<rparr>) 4096"

definition received :: "msgBuf \<Rightarrow> byte list \<Rightarrow> byte list" where
  "received b bytes = store 0 (take (msgBufferCap b) bytes) (msgBuffer b)"

text \<open>
  The sequence numbers that successive \<open>nlInitMessage\<close> calls of one session write into
  their headers. Each call finds the shared buffer in some state and has its own type
  and flags; no other function of the module assigns \<open>nextSeq\<close>.
\<close>

fun seqs_written :: "nlContext \<Rightarrow> (msgBuf \<times> u16 \<times> u16) list \<Rightarrow> u32 list" where
  "seqs_written ctx [] = []"
| "seqs_written ctx ((b, msgType, msgFlags) # rs) =
     get32 (msgBuffer (snd (nlInitMessage ctx b msgType msgFlags))) 8
       # seqs_written (fst (nlInitMessage ctx b msgType msgFlags)) rs"

subsection \<open>Two builder runs\<close>

text \<open>
  A second message built in the buffer that held a first one, stopped before the
  attribute is closed; and a message whose attribute starts at an odd offset. Fresh
  memory is all zero in both.
\<close>

definition stale_state :: "nlContext \<times> msgBuf" where
  "stale_state =
     (let (c1, b1) = nlInitMessage ctx0 (buf_init (\<lambda>_. 0)) 24 0;
          b2 = nlBufferAppend b1 (replicate 8 0xFF);
          (c3, b3) = nlInitMessage c1 b2 24 0;
          (r4, c4, b4) = nlPushAttr 8 c3 b3 1
      in (c4, nlBufferAppend b4 [7]))"

definition unaligned_state :: "nlContext \<times> msgBuf" where
  "unaligned_state =
     (let (c1, b1) = nlInitMessage ctx0 (buf_init (\<lambda>_. 0)) 24 0;
          b2 = nlBufferAppend b1 [9];
          (r3, c3, b3) = nlPushAttr 8 c1 b2 1
      in (c3, nlBufferAppend b3 [7]))"

subsection \<open>A socket, a handler and some records\<close>

text \<open>
  A setup in which the three system calls succeed; a world over given scripts; a
  handler that counts its invocations; and the encoding of a record and of an error
  record (a status and the 16 bytes of the request header it echoes, here zero).
  \<open>first_request\<close> and \<open>second_request\<close> are the first two messages of a session, with
  sequence numbers 0 and 1, each ready to be sent.
\<close>

definition os_ok :: os_setup where
  "os_ok = \<lparr>socket_ret = 3, socket_errno = 0, bind_ret = 0, bind_errno = 0,
      getsockname_ret = 0, getsockname_errno = 0, getsockname_pid = 4242\<rparr>"

definition world_of :: "send_result list \<Rightarrow> recv_result list \<Rightarrow> nat world" where
  "world_of sq rq = \<lparr>sendq = sq, recvq = rq, sent = [], handled = [], harg = 0\<rparr>"

definition count_handler :: "nat nlResponseHandler" where
  "count_handler data len type flags n = (0, Suc n)"

definition nlmsg :: "u16 \<Rightarrow> u32 \<Rightarrow> byte list \<Rightarrow> byte list" where
  "nlmsg type seq payload =
     put32 (word_of_nat (NLMSG_HDRLEN + length payload)) @ put16 type @ put16 0 @ put32 seq @ put32 0
       @ payload"

definition errmsg :: "u32 \<Rightarrow> u32 \<Rightarrow> byte list" where
  "errmsg seq status = nlmsg NLMSG_ERROR seq (put32 status @ [0,0,0,0, 0,0,0,0, 0,0,0,0, 0,0,0,0])"

definition many_requests :: "(msgBuf \<times> u16 \<times> u16) list" where
  "many_requests = replicate (2 ^ 32 + 1) (buf_init (\<lambda>_. 0), 24, 0)"

definition first_request :: "nlContext \<times> msgBuf" where
  "first_request = nlInitMessage ctx0 (buf_init (\<lambda>_. 0)) 24 4"

definition second_request :: "nlContext \<times> msgBuf" where
  "second_request = nlInitMessage (fst first_request) (snd first_request) 24 4"

section \<open>Properties\<close>

subsection \<open>Fields written and read back\<close>

lemma length_store:
  "off + length bs \<le> length m \<Longrightarrow> length (store off bs m) = length m"
  by (simp add: store_def)

lemma get16_put16_bytes:
  "(ucast (ucast w :: byte) :: u16) OR push_bit 8 (ucast (ucast (drop_bit 8 w) :: byte)) = w"
  by (rule bit_word_eqI) (auto simp add: bit_simps)

lemma get32_put32_bytes:
  "(ucast (ucast w :: byte) :: u32) OR push_bit 8 (ucast (ucast (drop_bit 8 w) :: byte))
     OR push_bit 16 (ucast (ucast (drop_bit 16 w) :: byte))
     OR push_bit 24 (ucast (ucast (drop_bit 24 w) :: byte)) = w"
proof (rule bit_word_eqI)
  fix n assume n: "n < LENGTH(32)"
  consider "n < 8" | "8 \<le> n" "n < 16" | "16 \<le> n" "n < 24" | "24 \<le> n" by linarith
  then show "bit ((ucast (ucast w :: byte) :: u32) OR push_bit 8 (ucast (ucast (drop_bit 8 w) :: byte))
     OR push_bit 16 (ucast (ucast (drop_bit 16 w) :: byte))
     OR push_bit 24 (ucast (ucast (drop_bit 24 w) :: byte))) n = bit w n"
    using n by cases (auto simp add: bit_simps)
qed

lemma nth_store_in:
  "off \<le> length m \<Longrightarrow> i < length bs \<Longrightarrow> store off bs m ! (off + i) = bs ! i"
  by (simp add: store_def nth_append)

lemma nth_store_out:
  "off + length bs \<le> length m \<Longrightarrow> i < off \<or> off + length bs \<le> i \<Longrightarrow>
   store off bs m ! i = m ! i"
  by (auto simp add: store_def nth_append)

lemma get16_store:
  "off + 2 \<le> length m \<Longrightarrow> get16 (store off (put16 w) m) off = w"
  using nth_store_in [of off m 0 "put16 w"] nth_store_in [of off m 1 "put16 w"]
  by (simp add: get16_def put16_def get16_put16_bytes)

lemma get32_store:
  "off + 4 \<le> length m \<Longrightarrow> get32 (store off (put32 w) m) off = w"
  using nth_store_in [of off m 0 "put32 w"] nth_store_in [of off m 1 "put32 w"]
    nth_store_in [of off m 2 "put32 w"] nth_store_in [of off m 3 "put32 w"]
  by (simp add: get32_def put32_def get32_put32_bytes)

subsection \<open>The buffer: reservation, commit, append\<close>

lemma cap_reserve: "msgBufferLen b + n \<le> msgBufferCap (nlReserveSpace b n)"
  by (simp add: nlReserveSpace_def msgBufferCap_def realloc_def Let_def)

lemma len_reserve [simp]: "msgBufferLen (nlReserveSpace b n) = msgBufferLen b"
  by (simp add: nlReserveSpace_def Let_def)

lemma fresh_reserve [simp]: "fresh (nlReserveSpace b n) = fresh b"
  by (simp add: nlReserveSpace_def Let_def)

lemma cap_reserve_mono: "msgBufferCap b \<le> msgBufferCap (nlReserveSpace b n)"
  by (simp add: nlReserveSpace_def msgBufferCap_def realloc_def Let_def)

lemma take_reserve:
  "k \<le> msgBufferCap b \<Longrightarrow> take k (msgBuffer (nlReserveSpace b n)) = take k (msgBuffer b)"
  by (simp add: nlReserveSpace_def msgBufferCap_def realloc_def Let_def)

lemma committed_reserve:
  "msgBufferLen b \<le> msgBufferCap b \<Longrightarrow> committed (nlReserveSpace b n) = committed b"
  by (simp add: committed_def take_reserve)

lemma len_append [simp]: "msgBufferLen (nlBufferAppend b p) = msgBufferLen b + length p"
  by (simp add: nlBufferAppend_def nlCommitSpace_def Let_def)

lemma cap_append:
  "msgBufferCap (nlBufferAppend b p) = msgBufferCap (nlReserveSpace b (length p))"
  using cap_reserve [of b "length p"]
  by (simp add: nlBufferAppend_def nlCommitSpace_def Let_def msgBufferCap_def store_def nlBufferTail_def)

lemma inv_append:
  "msgBufferLen (nlBufferAppend b p) \<le> msgBufferCap (nlBufferAppend b p)"
  using cap_reserve [of b "length p"] by (simp add: cap_append)

lemma committed_append:
  assumes "msgBufferLen b \<le> msgBufferCap b"
  shows "committed (nlBufferAppend b p) = committed b @ p"
proof -
  let ?b1 = "nlReserveSpace b (length p)"
  have c: "msgBufferLen b + length p \<le> length (msgBuffer ?b1)"
    using cap_reserve [of b "length p"] by (simp add: msgBufferCap_def)
  have "committed (nlBufferAppend b p)
      = take (msgBufferLen b + length p) (store (msgBufferLen b) p (msgBuffer ?b1))"
    by (simp add: committed_def nlBufferAppend_def nlCommitSpace_def Let_def nlBufferTail_def)
  also have "\<dots> = take (msgBufferLen b) (msgBuffer ?b1) @ p"
    using c by (simp add: store_def)
  also have "\<dots> = committed b @ p"
    using assms by (simp add: take_reserve committed_def)
  finally show ?thesis .
qed

lemma committed_appends:
  "msgBufferLen b \<le> msgBufferCap b \<Longrightarrow> committed (appends b ps) = committed b @ concat ps"
proof (induction ps arbitrary: b)
  case Nil show ?case by simp
next
  case (Cons p ps)
  have "committed (appends (nlBufferAppend b p) ps) = committed (nlBufferAppend b p) @ concat ps"
    by (rule Cons.IH) (rule inv_append)
  then show ?case using Cons.prems by (simp add: committed_append)
qed

lemma len_appends: "msgBufferLen (appends b ps) = msgBufferLen b + length (concat ps)"
  by (induction ps arbitrary: b) simp_all

lemma inv_appends:
  "msgBufferLen b \<le> msgBufferCap b \<Longrightarrow> msgBufferLen (appends b ps) \<le> msgBufferCap (appends b ps)"
proof (induction ps arbitrary: b)
  case Nil then show ?case by simp
next
  case (Cons p ps)
  have "msgBufferLen (appends (nlBufferAppend b p) ps) \<le> msgBufferCap (appends (nlBufferAppend b p) ps)"
    by (rule Cons.IH) (rule inv_append)
  then show ?case by simp
qed

lemma cap_appends_mono: "msgBufferCap b \<le> msgBufferCap (appends b ps)"
proof (induction ps arbitrary: b)
  case Nil show ?case by simp
next
  case (Cons p ps)
  have "msgBufferCap b \<le> msgBufferCap (nlBufferAppend b p)"
    by (simp add: cap_append cap_reserve_mono)
  also have "\<dots> \<le> msgBufferCap (appends (nlBufferAppend b p) ps)" by (rule Cons.IH)
  finally show ?case by simp
qed

lemma cap_appends_fits:
  "msgBufferLen b + length (concat ps) \<le> msgBufferCap b \<Longrightarrow>
   msgBufferCap (appends b ps) = msgBufferCap b"
proof (induction ps arbitrary: b)
  case Nil show ?case by simp
next
  case (Cons p ps)
  have 1: "msgBufferCap (nlBufferAppend b p) = msgBufferCap b"
    using Cons.prems by (simp add: cap_append nlReserveSpace_def Let_def)
  show ?case using Cons.prems Cons.IH [of "nlBufferAppend b p"] 1 by simp
qed

lemma cap_append_grow:
  "msgBufferCap b < msgBufferLen b + length p \<Longrightarrow>
   msgBufferCap (nlBufferAppend b p) = 2 * (msgBufferLen b + length p)"
  by (simp add: cap_append) (simp add: nlReserveSpace_def Let_def msgBufferCap_def realloc_def)

lemma RTA_ALIGN_bounds: "n \<le> RTA_ALIGN n \<and> RTA_ALIGN n < n + 4 \<and> 4 dvd RTA_ALIGN n"
  unfolding RTA_ALIGN_def by presburger

lemma nth_reserve:
  "i < msgBufferCap (nlReserveSpace b n) \<Longrightarrow>
   msgBuffer (nlReserveSpace b n) ! i = (if i < msgBufferCap b then msgBuffer b ! i else fresh b i)"
  by (auto simp add: nlReserveSpace_def msgBufferCap_def realloc_def Let_def nth_append)

lemma size_t_diff: "b \<le> a \<Longrightarrow> a < 2 ^ 64 \<Longrightarrow> size_t (int a - int b) = a - b"
proof -
  assume a: "b \<le> a" "a < 2 ^ 64"
  have e: "int a - int b = int (a - b)" using a by simp
  have "a - b < 2 ^ 64" using a by arith
  then have "int (a - b) < 2 ^ 64" by (metis of_nat_less_numeral_power_cancel_iff)
  then have "int (a - b) mod 2 ^ 64 = int (a - b)" by simp
  then show ?thesis unfolding size_t_def e by simp
qed

lemma RTA_LENGTH_eq: "RTA_LENGTH n = 4 + n"
  by (simp add: RTA_LENGTH_def RTA_ALIGN_def)

lemma RTA_SPACE_0: "RTA_SPACE 0 = 4"
  by (simp add: RTA_SPACE_def RTA_ALIGN_def RTA_LENGTH_def)

text \<open>
  The computation of \<open>nlPopAttr\<close> where the open header lies inside the committed region
  and the message is shorter than \<open>2 ^ 32\<close> bytes: no difference wraps around.
\<close>

lemma nlPopAttr_eq:
  assumes d: "0 < attrDepth ctx"
    and p: "attrNestPos ctx (attrDepth ctx - 1) + 4 \<le> msgBufferLen b"
    and c: "msgBufferLen b \<le> msgBufferCap b"
    and l32: "msgBufferLen b < 2 ^ 32"
  shows "nlPopAttr ctx b =
    Some (0, ctx\<lparr>attrDepth := attrDepth ctx - 1\<rparr>,
      (let p = attrNestPos ctx (attrDepth ctx - 1);
           sz = msgBufferLen b - p;
           b1 = b\<lparr>msgBuffer := store p (put16 (word_of_nat sz)) (msgBuffer b)\<rparr>;
           pad = RTA_ALIGN sz - sz
       in if 0 < pad then nlCommitSpace (nlReserveSpace b1 pad) pad else b1))"
proof -
  let ?q = "attrNestPos ctx (attrDepth ctx - Suc 0)"
  let ?len = "msgBufferLen b"
  have p': "?q + 4 \<le> ?len" using p by simp
  have l: "?len < 2 ^ 64" using l32 by simp
  have "size_t (int ?len - int (?q + 4)) = ?len - (?q + 4)"
    using p' l by (rule size_t_diff)
  then have 1: "size_t (int ?len - (int ?q + 4)) = ?len - (?q + 4)" by simp
  have 2: "size_t (int ?len - int ?q) = ?len - ?q"
    using p' l by (intro size_t_diff) simp_all
  have 3: "4 + (?len - (?q + 4)) = ?len - ?q"
    using p' by simp
  have "(4::u16) + word_of_nat (?len - (?q + 4)) = word_of_nat (4 + (?len - (?q + 4)))"
    by simp
  then have w3: "(4::u16) + word_of_nat (?len - (?q + 4)) = word_of_nat (?len - ?q)"
    by (simp only: 3)
  have "RTA_ALIGN (?len - ?q) < ?len - ?q + 4"
    using RTA_ALIGN_bounds by blast
  also have "\<dots> \<le> ?len + 4" by simp
  finally have 4: "RTA_ALIGN (?len - ?q) < 2 ^ 64" using l32 by simp
  have 5: "size_t (int (RTA_ALIGN (?len - ?q)) - int (?len - ?q)) = RTA_ALIGN (?len - ?q) - (?len - ?q)"
    using RTA_ALIGN_bounds [of "?len - ?q"] 4 by (intro size_t_diff) simp_all
  have 6: "\<not> msgBufferCap b < Suc (Suc ?q)" using p' c by simp
  show ?thesis
    using d 6
    apply (simp add: nlPopAttr_def nlBufferTail_def RTA_SPACE_def RTA_LENGTH_eq Let_def)
    apply (simp only: 1 2 3 w3 5)
    apply simp
    done
qed

lemma popped_eq:
  assumes "0 < attrDepth ctx"
    and "attrNestPos ctx (attrDepth ctx - 1) + 4 \<le> msgBufferLen b"
    and "msgBufferLen b \<le> msgBufferCap b"
    and "msgBufferLen b < 2 ^ 32"
  shows "popped ctx b =
      (let p = attrNestPos ctx (attrDepth ctx - 1);
           sz = msgBufferLen b - p;
           b1 = b\<lparr>msgBuffer := store p (put16 (word_of_nat sz)) (msgBuffer b)\<rparr>;
           pad = RTA_ALIGN sz - sz
       in if 0 < pad then nlCommitSpace (nlReserveSpace b1 pad) pad else b1)"
  unfolding popped_def nlPopAttr_eq [OF assms] by simp

lemma attr_inv_top:
  "attr_inv ctx b \<Longrightarrow> 0 < attrDepth ctx \<Longrightarrow>
   attrNestPos ctx (attrDepth ctx - 1) + 4 \<le> msgBufferLen b"
  by (simp add: attr_inv_def list_all_iff)

lemma attr_inv_cap: "attr_inv ctx b \<Longrightarrow> msgBufferLen b \<le> msgBufferCap b"
  by (simp add: attr_inv_def)

text \<open>The buffer after the length field is patched, before the padding is committed.\<close>

lemma patched_facts:
  fixes w :: u16 and q :: nat and b :: msgBuf
  assumes q: "q + 4 \<le> msgBufferLen b" and c: "msgBufferLen b \<le> msgBufferCap b"
  defines "b1 \<equiv> b\<lparr>msgBuffer := store q (put16 w) (msgBuffer b)\<rparr>"
  shows "msgBufferCap b1 = msgBufferCap b"
    and "msgBufferLen b1 = msgBufferLen b"
    and "fresh b1 = fresh b"
    and "get16 (msgBuffer b1) q = w"
    and "i < msgBufferCap b \<Longrightarrow> i \<noteq> q \<Longrightarrow> i \<noteq> q + 1 \<Longrightarrow> msgBuffer b1 ! i = msgBuffer b ! i"
proof -
  have in2: "q + 2 \<le> length (msgBuffer b)" using q c by (simp add: msgBufferCap_def)
  then have in2': "q + length (put16 w) \<le> length (msgBuffer b)" by (simp add: put16_def)
  show "msgBufferCap b1 = msgBufferCap b"
    using in2' by (simp add: b1_def msgBufferCap_def length_store)
  show "msgBufferLen b1 = msgBufferLen b" by (simp add: b1_def)
  show "fresh b1 = fresh b" by (simp add: b1_def)
  show "get16 (msgBuffer b1) q = w" using in2 by (simp add: b1_def get16_store)
  show "msgBuffer b1 ! i = msgBuffer b ! i"
    if "i < msgBufferCap b" "i \<noteq> q" "i \<noteq> q + 1"
  proof -
    have "i < q \<or> q + length (put16 w) \<le> i" using that by (auto simp add: put16_def)
    with in2' show ?thesis unfolding b1_def by (simp add: nth_store_out)
  qed
qed

lemma get16_reserve:
  "q + 2 \<le> msgBufferCap b \<Longrightarrow> get16 (msgBuffer (nlReserveSpace b n)) q = get16 (msgBuffer b) q"
proof -
  assume a: "q + 2 \<le> msgBufferCap b"
  have "take (q + 2) (msgBuffer (nlReserveSpace b n)) = take (q + 2) (msgBuffer b)"
    using a by (rule take_reserve)
  then have "take (q + 2) (msgBuffer (nlReserveSpace b n)) ! q = take (q + 2) (msgBuffer b) ! q"
    and "take (q + 2) (msgBuffer (nlReserveSpace b n)) ! (q + 1) = take (q + 2) (msgBuffer b) ! (q + 1)"
    by simp_all
  then show ?thesis by (simp add: get16_def)
qed

lemma cap_commit [simp]: "msgBufferCap (nlCommitSpace b n) = msgBufferCap b"
  by (simp add: nlCommitSpace_def msgBufferCap_def)

lemma len_commit [simp]: "msgBufferLen (nlCommitSpace b n) = msgBufferLen b + n"
  by (simp add: nlCommitSpace_def)

lemma buf_commit [simp]: "msgBuffer (nlCommitSpace b n) = msgBuffer b"
  by (simp add: nlCommitSpace_def)

lemma popped_facts:
  assumes d: "0 < attrDepth ctx"
    and p: "attrNestPos ctx (attrDepth ctx - 1) + 4 \<le> msgBufferLen b"
    and c: "msgBufferLen b \<le> msgBufferCap b"
    and l32: "msgBufferLen b < 2 ^ 32"
  defines "q \<equiv> attrNestPos ctx (attrDepth ctx - 1)"
  defines "sz \<equiv> msgBufferLen b - q"
  shows "msgBufferLen (popped ctx b) = q + RTA_ALIGN sz"
    and "msgBufferLen (popped ctx b) \<le> msgBufferCap (popped ctx b)"
    and "get16 (msgBuffer (popped ctx b)) q = word_of_nat sz"
    and "\<And>i. i < msgBufferCap (popped ctx b) \<Longrightarrow> i \<noteq> q \<Longrightarrow> i \<noteq> q + 1 \<Longrightarrow>
           msgBuffer (popped ctx b) ! i = (if i < msgBufferCap b then msgBuffer b ! i else fresh b i)"
proof -
  define b1 where "b1 = b\<lparr>msgBuffer := store q (put16 (word_of_nat sz)) (msgBuffer b)\<rparr>"
  define pad where "pad = RTA_ALIGN sz - sz"
  have q4: "q + 4 \<le> msgBufferLen b" using p by (simp add: q_def)
  note pf = patched_facts [OF q4 c, where w = "word_of_nat sz", folded b1_def]
  have pb: "popped ctx b = (if 0 < pad then nlCommitSpace (nlReserveSpace b1 pad) pad else b1)"
    unfolding popped_eq [OF d p c l32] by (simp add: Let_def b1_def pad_def q_def sz_def)
  have al: "sz \<le> RTA_ALIGN sz" using RTA_ALIGN_bounds by blast
  have szq: "q + sz = msgBufferLen b" using q4 by (simp add: sz_def)
  show "msgBufferLen (popped ctx b) = q + RTA_ALIGN sz"
  proof -
    have "msgBufferLen (popped ctx b) = msgBufferLen b + pad" by (simp add: pb pf)
    then show ?thesis using al szq unfolding pad_def by arith
  qed
  show "msgBufferLen (popped ctx b) \<le> msgBufferCap (popped ctx b)"
    using cap_reserve [of b1 pad] c by (simp add: pb pf)
  have q2: "q + 2 \<le> msgBufferCap b1" using q4 c by (simp add: pf)
  show "get16 (msgBuffer (popped ctx b)) q = word_of_nat sz"
    using q2 by (simp add: pb pf get16_reserve)
  show "msgBuffer (popped ctx b) ! i = (if i < msgBufferCap b then msgBuffer b ! i else fresh b i)"
    if i: "i < msgBufferCap (popped ctx b)" "i \<noteq> q" "i \<noteq> q + 1" for i
  proof (cases "0 < pad")
    case True
    then have "i < msgBufferCap (nlReserveSpace b1 pad)" using i by (simp add: pb)
    then have "msgBuffer (nlReserveSpace b1 pad) ! i
        = (if i < msgBufferCap b1 then msgBuffer b1 ! i else fresh b1 i)"
      by (rule nth_reserve)
    then show ?thesis using True i by (simp add: pb pf)
  next
    case False
    then show ?thesis using i by (simp add: pb pf)
  qed
qed

lemma NLMSG_consts: "NLMSG_HDRLEN = 16" "NLMSG_SPACE 0 = 16"
  by (simp_all add: NLMSG_HDRLEN_def NLMSG_SPACE_def NLMSG_LENGTH_def NLMSG_ALIGN_def)

lemma cap_reset: "n \<le> msgBufferCap (nlResetSpace b n)"
  using cap_reserve [of "b\<lparr>msgBufferLen := 0\<rparr>" n] by (simp add: nlResetSpace_def)

lemma len_reset [simp]: "msgBufferLen (nlResetSpace b n) = 0"
  by (simp add: nlResetSpace_def)

lemma nlInitMessage_facts:
  "msgBufferLen (snd (nlInitMessage ctx b t f)) = 16"
  "msgBufferCap (snd (nlInitMessage ctx b t f)) = msgBufferCap (nlResetSpace b 16)"
  "attrDepth (fst (nlInitMessage ctx b t f)) = 0"
  "nextSeq (fst (nlInitMessage ctx b t f)) = nextSeq ctx + 1"
proof -
  have c: "16 \<le> length (msgBuffer (nlResetSpace b 16))"
    using cap_reset [of 16 b] by (simp add: msgBufferCap_def)
  show "msgBufferLen (snd (nlInitMessage ctx b t f)) = 16"
    by (simp add: nlInitMessage_def Let_def NLMSG_consts)
  show "msgBufferCap (snd (nlInitMessage ctx b t f)) = msgBufferCap (nlResetSpace b 16)"
    using c by (simp add: nlInitMessage_def Let_def NLMSG_consts msgBufferCap_def
        length_store put16_def put32_def)
  show "attrDepth (fst (nlInitMessage ctx b t f)) = 0"
    by (simp add: nlInitMessage_def Let_def)
  show "nextSeq (fst (nlInitMessage ctx b t f)) = nextSeq ctx + 1"
    by (simp add: nlInitMessage_def Let_def)
qed

lemma attr_inv_init:
  "attr_inv (fst (nlInitMessage ctx b t f)) (snd (nlInitMessage ctx b t f))"
  using cap_reset [of 16 b] by (simp add: attr_inv_def nlInitMessage_facts)

lemma attr_inv_append: "attr_inv ctx b \<Longrightarrow> attr_inv ctx (nlBufferAppend b p)"
  using inv_append [of b p] by (auto simp add: attr_inv_def list_all_iff)

lemma nlPushAttr_facts:
  assumes "attrDepth ctx < M"
  shows "fst (nlPushAttr M ctx b t) = 0"
    and "attrDepth (fst (snd (nlPushAttr M ctx b t))) = attrDepth ctx + 1"
    and "attrNestPos (fst (snd (nlPushAttr M ctx b t))) = (attrNestPos ctx)(attrDepth ctx := msgBufferLen b)"
    and "msgBufferLen (snd (snd (nlPushAttr M ctx b t))) = msgBufferLen b + 4"
    and "msgBufferCap (snd (snd (nlPushAttr M ctx b t))) = msgBufferCap (nlReserveSpace b 4)"
proof -
  have c: "msgBufferLen b + 4 \<le> length (msgBuffer (nlReserveSpace b 4))"
    using cap_reserve [of b 4] by (simp add: msgBufferCap_def)
  show "fst (nlPushAttr M ctx b t) = 0"
    using assms by (simp add: nlPushAttr_def Let_def)
  show "attrDepth (fst (snd (nlPushAttr M ctx b t))) = attrDepth ctx + 1"
    using assms by (simp add: nlPushAttr_def Let_def)
  show "attrNestPos (fst (snd (nlPushAttr M ctx b t))) = (attrNestPos ctx)(attrDepth ctx := msgBufferLen b)"
    using assms by (simp add: nlPushAttr_def Let_def)
  show "msgBufferLen (snd (snd (nlPushAttr M ctx b t))) = msgBufferLen b + 4"
    using assms by (simp add: nlPushAttr_def Let_def RTA_LENGTH_eq)
  show "msgBufferCap (snd (snd (nlPushAttr M ctx b t))) = msgBufferCap (nlReserveSpace b 4)"
    using assms c by (simp add: nlPushAttr_def Let_def RTA_SPACE_0 nlBufferTail_def
        msgBufferCap_def length_store put16_def)
qed

lemma attr_inv_push:
  assumes "attr_inv ctx b"
  shows "attr_inv (fst (snd (nlPushAttr M ctx b t))) (snd (snd (nlPushAttr M ctx b t)))"
proof (cases "attrDepth ctx < M")
  case True
  show ?thesis
    using assms cap_reserve [of b 4]
    by (auto simp add: attr_inv_def list_all_iff nlPushAttr_facts [OF True])
next
  case False
  then show ?thesis using assms by (simp add: nlPushAttr_def)
qed

lemma attr_inv_pop:
  assumes i: "attr_inv ctx b" and d: "0 < attrDepth ctx" and l: "msgBufferLen b < 2 ^ 32"
  shows "attr_inv (ctx\<lparr>attrDepth := attrDepth ctx - 1\<rparr>) (popped ctx b)"
proof -
  note pf = popped_facts [OF d attr_inv_top [OF i d] attr_inv_cap [OF i] l]
  have "msgBufferLen b \<le> msgBufferLen (popped ctx b)"
    using RTA_ALIGN_bounds [of "msgBufferLen b - attrNestPos ctx (attrDepth ctx - 1)"]
      attr_inv_top [OF i d]
    unfolding pf(1) by arith
  moreover have "attrNestPos ctx k + 4 \<le> msgBufferLen b" if "k < attrDepth ctx - 1" for k
    using i that by (simp add: attr_inv_def list_all_iff)
  ultimately have "attrNestPos ctx k + 4 \<le> msgBufferLen (popped ctx b)"
    if "k < attrDepth ctx - 1" for k
    using that by fastforce
  then show ?thesis
    using pf(2) by (simp add: attr_inv_def list_all_iff)
qed

subsection \<open>Closing an attribute\<close>

lemmas run_defs = nlInitMessage_def nlBufferAppend_def nlPushAttr_def
      nlResetSpace_def nlReserveSpace_def nlCommitSpace_def nlBufferTail_def msgBufferCap_def
      realloc_def store_def put16_def put32_def Let_def NLMSG_consts RTA_SPACE_0 RTA_LENGTH_eq
      NLM_F_REQUEST_def

lemma first_message:
  "nlInitMessage ctx0 (buf_init (\<lambda>_. 0)) 24 0 =
   (ctx0\<lparr>nextSeq := 1\<rparr>,
    \<lparr>msgBuffer = [0,0,0,0, 24,0, 1,0, 0,0,0,0, 0,0,0,0, 0,0,0,0, 0,0,0,0, 0,0,0,0, 0,0,0,0],
      msgBufferLen = 16, fresh = (\<lambda>_. 0)\<rparr>)"
  by (simp add: ctx0_def buf_init_def run_defs upt_conv_Cons)

lemma stale_state_eq:
  "stale_state =
   (ctx0\<lparr>nextSeq := 2, attrDepth := 1, attrNestPos := (\<lambda>_. 0)(0 := 16)\<rparr>,
    \<lparr>msgBuffer = [0,0,0,0, 24,0, 1,0, 1,0,0,0, 0,0,0,0, 0xFF,0xFF, 1,0, 7, 0xFF,0xFF,0xFF, 0,0,0,0, 0,0,0,0],
      msgBufferLen = 21, fresh = (\<lambda>_. 0)\<rparr>)"
proof -
  let ?z = "\<lambda>_::nat. 0::byte"
  have 2: "nlBufferAppend
      \<lparr>msgBuffer = [0,0,0,0, 24,0, 1,0, 0,0,0,0, 0,0,0,0, 0,0,0,0, 0,0,0,0, 0,0,0,0, 0,0,0,0],
       msgBufferLen = 16, fresh = ?z\<rparr> (replicate 8 0xFF) =
      \<lparr>msgBuffer = [0,0,0,0, 24,0, 1,0, 0,0,0,0, 0,0,0,0, 0xFF,0xFF,0xFF,0xFF, 0xFF,0xFF,0xFF,0xFF, 0,0,0,0, 0,0,0,0],
       msgBufferLen = 24, fresh = ?z\<rparr>"
    by (simp add: run_defs eval_nat_numeral)
  have 3: "nlInitMessage (ctx0\<lparr>nextSeq := 1\<rparr>)
      \<lparr>msgBuffer = [0,0,0,0, 24,0, 1,0, 0,0,0,0, 0,0,0,0, 0xFF,0xFF,0xFF,0xFF, 0xFF,0xFF,0xFF,0xFF, 0,0,0,0, 0,0,0,0],
       msgBufferLen = 24, fresh = ?z\<rparr> 24 0 =
      (ctx0\<lparr>nextSeq := 2\<rparr>,
       \<lparr>msgBuffer = [0,0,0,0, 24,0, 1,0, 1,0,0,0, 0,0,0,0, 0xFF,0xFF,0xFF,0xFF, 0xFF,0xFF,0xFF,0xFF, 0,0,0,0, 0,0,0,0],
       msgBufferLen = 16, fresh = ?z\<rparr>)"
    by (simp add: ctx0_def run_defs)
  have 4: "nlPushAttr 8 (ctx0\<lparr>nextSeq := 2\<rparr>)
       \<lparr>msgBuffer = [0,0,0,0, 24,0, 1,0, 1,0,0,0, 0,0,0,0, 0xFF,0xFF,0xFF,0xFF, 0xFF,0xFF,0xFF,0xFF, 0,0,0,0, 0,0,0,0],
       msgBufferLen = 16, fresh = ?z\<rparr> 1 =
      (0, ctx0\<lparr>nextSeq := 2, attrDepth := 1, attrNestPos := (\<lambda>_. 0)(0 := 16)\<rparr>,
       \<lparr>msgBuffer = [0,0,0,0, 24,0, 1,0, 1,0,0,0, 0,0,0,0, 0xFF,0xFF,1,0, 0xFF,0xFF,0xFF,0xFF, 0,0,0,0, 0,0,0,0],
       msgBufferLen = 20, fresh = ?z\<rparr>)"
    by (simp add: ctx0_def run_defs)
  have 5: "nlBufferAppend
       \<lparr>msgBuffer = [0,0,0,0, 24,0, 1,0, 1,0,0,0, 0,0,0,0, 0xFF,0xFF,1,0, 0xFF,0xFF,0xFF,0xFF, 0,0,0,0, 0,0,0,0],
       msgBufferLen = 20, fresh = ?z\<rparr> [7] =
       \<lparr>msgBuffer = [0,0,0,0, 24,0, 1,0, 1,0,0,0, 0,0,0,0, 0xFF,0xFF,1,0, 7,0xFF,0xFF,0xFF, 0,0,0,0, 0,0,0,0],
       msgBufferLen = 21, fresh = ?z\<rparr>"
    by (simp add: run_defs)
  show ?thesis
    unfolding stale_state_def first_message by (simp only: Let_def prod.case 2 3 4 5)
qed

lemma unaligned_state_eq:
  "unaligned_state =
   (ctx0\<lparr>nextSeq := 1, attrDepth := 1, attrNestPos := (\<lambda>_. 0)(0 := 17)\<rparr>,
    \<lparr>msgBuffer = [0,0,0,0, 24,0, 1,0, 0,0,0,0, 0,0,0,0, 9, 0,0, 1,0, 7, 0,0, 0,0,0,0, 0,0,0,0],
      msgBufferLen = 22, fresh = (\<lambda>_. 0)\<rparr>)"
proof -
  let ?z = "\<lambda>_::nat. 0::byte"
  have 2: "nlBufferAppend
      \<lparr>msgBuffer = [0,0,0,0, 24,0, 1,0, 0,0,0,0, 0,0,0,0, 0,0,0,0, 0,0,0,0, 0,0,0,0, 0,0,0,0],
       msgBufferLen = 16, fresh = ?z\<rparr> [9] =
      \<lparr>msgBuffer = [0,0,0,0, 24,0, 1,0, 0,0,0,0, 0,0,0,0, 9,0,0,0, 0,0,0,0, 0,0,0,0, 0,0,0,0],
       msgBufferLen = 17, fresh = ?z\<rparr>"
    by (simp add: run_defs)
  have 3: "nlPushAttr 8 (ctx0\<lparr>nextSeq := 1\<rparr>)
       \<lparr>msgBuffer = [0,0,0,0, 24,0, 1,0, 0,0,0,0, 0,0,0,0, 9,0,0,0, 0,0,0,0, 0,0,0,0, 0,0,0,0],
       msgBufferLen = 17, fresh = ?z\<rparr> 1 =
      (0, ctx0\<lparr>nextSeq := 1, attrDepth := 1, attrNestPos := (\<lambda>_. 0)(0 := 17)\<rparr>,
       \<lparr>msgBuffer = [0,0,0,0, 24,0, 1,0, 0,0,0,0, 0,0,0,0, 9,0,0,1, 0,0,0,0, 0,0,0,0, 0,0,0,0],
       msgBufferLen = 21, fresh = ?z\<rparr>)"
    by (simp add: ctx0_def run_defs)
  have 4: "nlBufferAppend
       \<lparr>msgBuffer = [0,0,0,0, 24,0, 1,0, 0,0,0,0, 0,0,0,0, 9,0,0,1, 0,0,0,0, 0,0,0,0, 0,0,0,0],
       msgBufferLen = 21, fresh = ?z\<rparr> [7] =
       \<lparr>msgBuffer = [0,0,0,0, 24,0, 1,0, 0,0,0,0, 0,0,0,0, 9,0,0,1, 0,7,0,0, 0,0,0,0, 0,0,0,0],
       msgBufferLen = 22, fresh = ?z\<rparr>"
    by (simp add: run_defs)
  show ?thesis
    unfolding unaligned_state_def first_message by (simp only: Let_def prod.case 2 3 4)
qed

text \<open>
  C4, as amended. After a matching \<open>nlPushAttr\<close> (the open header lies inside the
  committed region) and for a message shorter than \<open>2 ^ 32\<close> bytes, \<open>nlPopAttr\<close> succeeds,
  writes header size plus payload size into the attribute's length field (reduced modulo
  \<open>2 ^ 16\<close>, the width of the field), and moves the committed length to the attribute's
  start plus its size rounded up to a multiple of 4: less than 4 bytes further, and a
  4-byte boundary when the attribute starts at one. It writes no padding byte: every
  byte but the two of the length field keeps the value the buffer held, or is the
  content of fresh memory where the reservation had to grow the buffer.
\<close>

theorem pop_attr_length_and_padding:
  "attr_inv ctx b \<and> 0 < attrDepth ctx \<and> msgBufferLen b < 2 ^ 32 \<longrightarrow>
     (let p = attrNestPos ctx (attrDepth ctx - 1);
          n = msgBufferLen b - (p + 4);
          b' = popped ctx b
      in nlPopAttr ctx b = Some (0, ctx\<lparr>attrDepth := attrDepth ctx - 1\<rparr>, b')
       \<and> attr_inv (ctx\<lparr>attrDepth := attrDepth ctx - 1\<rparr>) b'
       \<and> get16 (msgBuffer b') p = word_of_nat (4 + n)
       \<and> (4 + n < 2 ^ 16 \<longrightarrow> unat (get16 (msgBuffer b') p) = 4 + n)
       \<and> msgBufferLen b' = p + RTA_ALIGN (4 + n)
       \<and> msgBufferLen b \<le> msgBufferLen b' \<and> msgBufferLen b' < msgBufferLen b + 4
       \<and> 4 dvd (msgBufferLen b' - p)
       \<and> (4 dvd p \<longrightarrow> 4 dvd msgBufferLen b')
       \<and> (\<forall>i < msgBufferCap b'. i \<noteq> p \<and> i \<noteq> p + 1 \<longrightarrow>
             msgBuffer b' ! i = (if i < msgBufferCap b then msgBuffer b ! i else fresh b i)))"
proof (intro impI)
  assume a: "attr_inv ctx b \<and> 0 < attrDepth ctx \<and> msgBufferLen b < 2 ^ 32"
  then have i: "attr_inv ctx b" and d: "0 < attrDepth ctx" and l: "msgBufferLen b < 2 ^ 32"
    by simp_all
  define p where "p = attrNestPos ctx (attrDepth ctx - 1)"
  define n where "n = msgBufferLen b - (p + 4)"
  define b' where "b' = popped ctx b"
  have top: "p + 4 \<le> msgBufferLen b" using attr_inv_top [OF i d] by (simp add: p_def)
  have sz: "msgBufferLen b - p = 4 + n" using top by (simp add: n_def)
  note pf = popped_facts [OF d attr_inv_top [OF i d] attr_inv_cap [OF i] l,
      folded p_def b'_def, unfolded sz]
  have al: "4 + n \<le> RTA_ALIGN (4 + n)" "RTA_ALIGN (4 + n) < 4 + n + 4" "4 dvd RTA_ALIGN (4 + n)"
    using RTA_ALIGN_bounds [of "4 + n"] by simp_all
  have 1: "nlPopAttr ctx b = Some (0, ctx\<lparr>attrDepth := attrDepth ctx - 1\<rparr>, b')"
    unfolding b'_def popped_eq [OF d attr_inv_top [OF i d] attr_inv_cap [OF i] l]
    by (rule nlPopAttr_eq [OF d attr_inv_top [OF i d] attr_inv_cap [OF i] l])
  have 2: "attr_inv (ctx\<lparr>attrDepth := attrDepth ctx - 1\<rparr>) b'"
    unfolding b'_def by (rule attr_inv_pop [OF i d l])
  have 3: "4 + n < 2 ^ 16 \<longrightarrow> unat (get16 (msgBuffer b') p) = 4 + n"
  proof
    assume "4 + n < 2 ^ 16"
    then have "unat (word_of_nat (4 + n) :: u16) = 4 + n"
      unfolding unat_of_nat by simp
    then show "unat (get16 (msgBuffer b') p) = 4 + n" by (simp only: pf(3))
  qed
  have 4: "msgBufferLen b \<le> msgBufferLen b'" "msgBufferLen b' < msgBufferLen b + 4"
    using al top sz unfolding pf(1) by arith+
  have 5: "4 dvd (msgBufferLen b' - p)" using al(3) by (simp add: pf(1))
  have 6: "4 dvd p \<longrightarrow> 4 dvd msgBufferLen b'" using al(3) by (simp add: pf(1))
  have 7: "\<forall>i < msgBufferCap b'. i \<noteq> p \<and> i \<noteq> p + 1 \<longrightarrow>
             msgBuffer b' ! i = (if i < msgBufferCap b then msgBuffer b ! i else fresh b i)"
    using pf(4) by blast
  show "let p = attrNestPos ctx (attrDepth ctx - 1);
          n = msgBufferLen b - (p + 4);
          b' = popped ctx b
      in nlPopAttr ctx b = Some (0, ctx\<lparr>attrDepth := attrDepth ctx - 1\<rparr>, b')
       \<and> attr_inv (ctx\<lparr>attrDepth := attrDepth ctx - 1\<rparr>) b'
       \<and> get16 (msgBuffer b') p = word_of_nat (4 + n)
       \<and> (4 + n < 2 ^ 16 \<longrightarrow> unat (get16 (msgBuffer b') p) = 4 + n)
       \<and> msgBufferLen b' = p + RTA_ALIGN (4 + n)
       \<and> msgBufferLen b \<le> msgBufferLen b' \<and> msgBufferLen b' < msgBufferLen b + 4
       \<and> 4 dvd (msgBufferLen b' - p)
       \<and> (4 dvd p \<longrightarrow> 4 dvd msgBufferLen b')
       \<and> (\<forall>i < msgBufferCap b'. i \<noteq> p \<and> i \<noteq> p + 1 \<longrightarrow>
             msgBuffer b' ! i = (if i < msgBufferCap b then msgBuffer b ! i else fresh b i))"
    unfolding Let_def p_def [symmetric] n_def [symmetric] b'_def [symmetric]
    using 1 2 3 4 5 6 7 pf(1) pf(3) by blast
qed

lemma stale_pop:
  "nlPopAttr (fst stale_state) (snd stale_state) =
     Some (0, ctx0\<lparr>nextSeq := 2, attrDepth := 0, attrNestPos := (\<lambda>_. 0)(0 := 16)\<rparr>,
       \<lparr>msgBuffer = [0,0,0,0, 24,0, 1,0, 1,0,0,0, 0,0,0,0, 5,0, 1,0, 7, 0xFF,0xFF,0xFF, 0,0,0,0, 0,0,0,0],
        msgBufferLen = 24, fresh = (\<lambda>_. 0)\<rparr>)"
  by (simp add: stale_state_eq ctx0_def nlPopAttr_def nlReserveSpace_def nlCommitSpace_def
      nlBufferTail_def msgBufferCap_def store_def put16_def Let_def RTA_SPACE_def RTA_LENGTH_eq
      RTA_ALIGN_def size_t_def)

lemma unaligned_pop:
  "nlPopAttr (fst unaligned_state) (snd unaligned_state) =
     Some (0, ctx0\<lparr>nextSeq := 1, attrDepth := 0, attrNestPos := (\<lambda>_. 0)(0 := 17)\<rparr>,
       \<lparr>msgBuffer = [0,0,0,0, 24,0, 1,0, 0,0,0,0, 0,0,0,0, 9, 5,0, 1,0, 7, 0,0, 0,0,0,0, 0,0,0,0],
        msgBufferLen = 25, fresh = (\<lambda>_. 0)\<rparr>)"
  by (simp add: unaligned_state_eq ctx0_def nlPopAttr_def nlReserveSpace_def nlCommitSpace_def
      nlBufferTail_def msgBufferCap_def store_def put16_def Let_def RTA_SPACE_def RTA_LENGTH_eq
      RTA_ALIGN_def size_t_def)

theorem pop_attr_length_and_padding_witness:
  "attr_inv (fst stale_state) (snd stale_state)
   \<and> 0 < attrDepth (fst stale_state)
   \<and> msgBufferLen (snd stale_state) < 2 ^ 32
   \<and> attrNestPos (fst stale_state) (attrDepth (fst stale_state) - 1) = 16
   \<and> msgBufferLen (snd stale_state) = 21
   \<and> get16 (msgBuffer (popped (fst stale_state) (snd stale_state))) 16 = 5
   \<and> msgBufferLen (popped (fst stale_state) (snd stale_state)) = 24"
proof -
  have h: "attr_inv (fst stale_state) (snd stale_state) \<and> 0 < attrDepth (fst stale_state)
      \<and> msgBufferLen (snd stale_state) < 2 ^ 32"
    by (simp add: stale_state_eq ctx0_def attr_inv_def msgBufferCap_def)
  have v: "attrNestPos (fst stale_state) (attrDepth (fst stale_state) - Suc 0) = 16"
    "msgBufferLen (snd stale_state) = 21"
    by (simp_all add: stale_state_eq ctx0_def)
  show ?thesis
    using pop_attr_length_and_padding [of "fst stale_state" "snd stale_state"] h
    by (simp add: v Let_def RTA_ALIGN_def)
qed

text \<open>
  The padding need not be zero, and the new tail need not be a 4-byte boundary: a second
  message built over the bytes of a first one pads with those bytes, and an attribute
  pushed at offset 17 ends at offset 25.
\<close>

theorem pop_attr_padding_not_zero:
  "msgBufferLen (snd stale_state) = 21
   \<and> fst (the (nlPopAttr (fst stale_state) (snd stale_state))) = 0
   \<and> committed (popped (fst stale_state) (snd stale_state)) =
       [0,0,0,0, 24,0, 1,0, 1,0,0,0, 0,0,0,0, 5,0, 1,0, 7, 0xFF,0xFF,0xFF]
   \<and> msgBufferLen (snd unaligned_state) = 22
   \<and> fst (the (nlPopAttr (fst unaligned_state) (snd unaligned_state))) = 0
   \<and> msgBufferLen (popped (fst unaligned_state) (snd unaligned_state)) = 25
   \<and> 25 mod 4 = (1 :: nat)"
  by (simp add: popped_def stale_pop unaligned_pop committed_def)
    (simp add: stale_state_eq unaligned_state_eq)

subsection \<open>Growth and misuse\<close>

text \<open>
  C10. \<open>nlInitMessage\<close> leaves the committed length within the capacity. From a buffer
  in that condition, appending gives the same committed bytes as appending after one
  reservation large enough for all the payload, in which no growth step happens; the
  committed length is within the capacity after every append; and an append that has
  to grow the buffer sets the capacity to twice the required size.
\<close>

theorem growth_preserves_content:
  "msgBufferLen (snd (nlInitMessage ctx b0 t f)) \<le> msgBufferCap (snd (nlInitMessage ctx b0 t f))
   \<and> (msgBufferLen b \<le> msgBufferCap b \<and> length (concat ps) \<le> n \<longrightarrow>
     committed (appends b ps) = committed (appends (nlReserveSpace b n) ps)
   \<and> msgBufferCap (appends (nlReserveSpace b n) ps) = msgBufferCap (nlReserveSpace b n)
   \<and> (\<forall>k. msgBufferLen (appends b (take k ps)) \<le> msgBufferCap (appends b (take k ps)))
   \<and> (\<forall>p. msgBufferCap b < msgBufferLen b + length p \<longrightarrow>
          msgBufferCap (nlBufferAppend b p) = 2 * (msgBufferLen b + length p)))"
proof (intro impI conjI allI)
  show "msgBufferLen (snd (nlInitMessage ctx b0 t f)) \<le> msgBufferCap (snd (nlInitMessage ctx b0 t f))"
    using attr_inv_init [of ctx b0 t f] by (rule attr_inv_cap)
  assume a: "msgBufferLen b \<le> msgBufferCap b \<and> length (concat ps) \<le> n"
  let ?r = "nlReserveSpace b n"
  have r: "msgBufferLen ?r \<le> msgBufferCap ?r"
    using cap_reserve [of b n] by simp
  have "committed (appends ?r ps) = committed ?r @ concat ps"
    using r by (rule committed_appends)
  also have "committed ?r = committed b"
    using a by (simp add: committed_reserve)
  finally show "committed (appends b ps) = committed (appends ?r ps)"
    using a by (simp add: committed_appends)
  have "msgBufferLen ?r + length (concat ps) \<le> msgBufferCap ?r"
    using cap_reserve [of b n] a by simp
  then show "msgBufferCap (appends ?r ps) = msgBufferCap ?r"
    by (rule cap_appends_fits)
  show "msgBufferLen (appends b (take k ps)) \<le> msgBufferCap (appends b (take k ps))" for k
    using a by (simp add: inv_appends)
  show "msgBufferCap (nlBufferAppend b p) = 2 * (msgBufferLen b + length p)"
    if "msgBufferCap b < msgBufferLen b + length p" for p
    using that by (rule cap_append_grow)
qed

theorem growth_preserves_content_witness:
  "msgBufferLen (buf_init (\<lambda>_. 0xCE)) \<le> msgBufferCap (buf_init (\<lambda>_. 0xCE)) \<and> length (concat [[1, 2], [3, 4, 5]]) \<le> 8
   \<and> msgBufferCap (buf_init (\<lambda>_. 0xCE)) < msgBufferLen (buf_init (\<lambda>_. 0xCE)) + length [1, 2 :: byte]
   \<and> msgBufferCap (nlBufferAppend (buf_init (\<lambda>_. 0xCE)) [1, 2]) = 4
   \<and> msgBufferCap (appends (buf_init (\<lambda>_. 0xCE)) [[1, 2], [3, 4, 5]]) = 10
   \<and> msgBufferCap (appends (nlReserveSpace (buf_init (\<lambda>_. 0xCE)) 8) [[1, 2], [3, 4, 5]]) = 16
   \<and> committed (appends (buf_init (\<lambda>_. 0xCE)) [[1, 2], [3, 4, 5]]) = [1, 2, 3, 4, 5]
   \<and> committed (appends (nlReserveSpace (buf_init (\<lambda>_. 0xCE)) 8) [[1, 2], [3, 4, 5]]) = [1, 2, 3, 4, 5]"
  using growth_preserves_content [of ctx0 "buf_init (\<lambda>_. 0xCE)" 24 4 "buf_init (\<lambda>_. 0xCE)" "[[1, 2], [3, 4, 5]]" 8]
  by (simp add: buf_init_def msgBufferCap_def nlBufferAppend_def nlReserveSpace_def
      nlCommitSpace_def nlBufferTail_def realloc_def store_def committed_def Let_def)

text \<open>
  C6. At the maximum nesting depth \<open>nlPushAttr\<close> returns \<open>-1\<close> and leaves the context and
  the buffer (contents, committed length, capacity) as they were; on an empty nesting
  stack \<open>nlPopAttr\<close> returns \<open>-1\<close> and leaves both as they were.
\<close>

theorem misuse_no_side_effect:
  "(MAX_ATTR_NEST \<le> attrDepth ctx \<longrightarrow> nlPushAttr MAX_ATTR_NEST ctx b type = (- 1, ctx, b))
   \<and> (attrDepth ctx = 0 \<longrightarrow> nlPopAttr ctx b = Some (- 1, ctx, b))"
  by (simp add: nlPushAttr_def nlPopAttr_def)

theorem misuse_no_side_effect_witness:
  "(8 :: nat) \<le> attrDepth (ctx0\<lparr>attrDepth := 8\<rparr>)
   \<and> nlPushAttr 8 (ctx0\<lparr>attrDepth := 8\<rparr>) (buf_init (\<lambda>_. 0xCE)) 1 = (- 1, ctx0\<lparr>attrDepth := 8\<rparr>, (buf_init (\<lambda>_. 0xCE)))
   \<and> attrDepth ctx0 = 0
   \<and> nlPopAttr ctx0 (buf_init (\<lambda>_. 0xCE)) = Some (- 1, ctx0, (buf_init (\<lambda>_. 0xCE)))"
  using misuse_no_side_effect [of 8 "ctx0\<lparr>attrDepth := 8\<rparr>" "buf_init (\<lambda>_. 0xCE)" 1]
    misuse_no_side_effect [of 8 ctx0 "buf_init (\<lambda>_. 0xCE)" 1]
  by (simp add: ctx0_def)

subsection \<open>Opening a session\<close>

text \<open>
  C1. The claim fails on the code: where the three setup calls succeed,
  \<open>nlNewContextInPlace\<close> returns 0 and initialises the context, and \<open>nlNewContext\<close> then
  executes \<open>return 0\<close>: the caller gets \<open>NULL\<close>, and nothing is stored through \<open>err\<close>.
\<close>

theorem nlNewContext_returns_NULL_on_success:
  "fst (nlNewContextInPlace os_ok mem) = 0
   \<and> nextSeq (fst (snd (nlNewContextInPlace os_ok mem))) = 0
   \<and> nlNewContext os_ok mem err = (None, err)"
  by (simp add: nlNewContext_def nlNewContextInPlace_def os_ok_def Let_def)

lemma nlNewContext_NULL: "fst (nlNewContext os mem err) = None"
  by (simp add: nlNewContext_def Let_def split: prod.split)

subsection \<open>Sending with an open attribute\<close>

text \<open>
  C5. With an attribute open, \<open>nlSendMessage\<close> returns \<open>-1\<close> and changes nothing: not the
  context, not the buffer, not the socket (no \<open>sendmsg\<close> call and no \<open>recvmsg\<close> call is made).
  So whenever a call has passed a message to \<open>sendmsg\<close>, the nesting depth was 0.
\<close>

theorem send_with_open_attribute:
  "(0 < attrDepth ctx \<longrightarrow> nlSendMessage ctx b w waitResponse handler = (Returns (- 1), ctx, b, w))
   \<and> (sent (snd (snd (snd (nlSendMessage ctx b w waitResponse handler)))) \<noteq> sent w
        \<longrightarrow> attrDepth ctx = 0)"
proof -
  have 1: "nlSendMessage ctx b w waitResponse handler = (Returns (- 1), ctx, b, w)"
    if "0 < attrDepth ctx"
    using that by (simp add: nlSendMessage_def)
  then show ?thesis by (cases "0 < attrDepth ctx") simp_all
qed

theorem send_with_open_attribute_witness:
  "0 < attrDepth (fst stale_state)
   \<and> nlSendMessage (fst stale_state) (snd stale_state) (world_of [Sent] []) True None =
       (Returns (- 1), fst stale_state, snd stale_state, world_of [Sent] [])
   \<and> sent (world_of [Sent] []) = []"
  using send_with_open_attribute [of "fst stale_state" "snd stale_state" "world_of [Sent] []" True None]
  by (simp add: stale_state_eq ctx0_def world_of_def)

subsection \<open>The sequence counter\<close>

lemma get32_store_other:
  assumes "off + length bs \<le> length m" and "off' + 4 \<le> off \<or> off + length bs \<le> off'"
  shows "get32 (store off bs m) off' = get32 m off'"
proof -
  have "store off bs m ! (off' + k) = m ! (off' + k)" if "k < 4" for k
    using assms that by (intro nth_store_out) auto
  from this [of 0] this [of 1] this [of 2] this [of 3] show ?thesis
    by (simp add: get32_def)
qed

lemma seq_written: "get32 (msgBuffer (snd (nlInitMessage ctx b t f))) 8 = nextSeq ctx"
proof -
  let ?m = "msgBuffer (nlResetSpace b 16)"
  let ?m1 = "store 4 (put16 t) ?m"
  let ?m2 = "store 6 (put16 (NLM_F_REQUEST OR f)) ?m1"
  let ?m3 = "store 8 (put32 (nextSeq ctx)) ?m2"
  have c: "16 \<le> length ?m"
    using cap_reset [of 16 b] by (simp add: msgBufferCap_def)
  have l1: "length ?m1 = length ?m" using c by (simp add: length_store put16_def)
  have l2: "length ?m2 = length ?m" using c l1 by (simp add: length_store put16_def)
  have l3: "length ?m3 = length ?m" using c l2 by (simp add: length_store put32_def)
  have "msgBuffer (snd (nlInitMessage ctx b t f)) = store 12 (put32 (nl_pid ctx)) ?m3"
    by (simp add: nlInitMessage_def Let_def NLMSG_consts)
  also have "get32 \<dots> 8 = get32 ?m3 8"
    using c l3 by (intro get32_store_other) (simp_all add: put32_def)
  also have "\<dots> = nextSeq ctx"
    using c l2 by (intro get32_store) simp
  finally show ?thesis .
qed

lemma length_seqs_written: "length (seqs_written ctx rs) = length rs"
  by (induction ctx rs rule: seqs_written.induct) simp_all

lemma nth_seqs_written:
  "k < length rs \<Longrightarrow> seqs_written ctx rs ! k = nextSeq ctx + word_of_nat k"
proof (induction ctx rs arbitrary: k rule: seqs_written.induct)
  case (1 ctx)
  then show ?case by simp
next
  case (2 ctx b t f rs)
  show ?case
  proof (cases k)
    case 0
    then show ?thesis by (simp add: seq_written)
  next
    case (Suc j)
    then have "j < length rs" using "2.prems" by simp
    then have "seqs_written (fst (nlInitMessage ctx b t f)) rs ! j
        = nextSeq (fst (nlInitMessage ctx b t f)) + word_of_nat j"
      by (rule "2.IH")
    then show ?thesis using Suc by (simp add: nlInitMessage_facts)
  qed
qed

lemma u32_of_nat_inj:
  "i < 2 ^ 32 \<Longrightarrow> j < 2 ^ 32 \<Longrightarrow> (word_of_nat i :: u32) = word_of_nat j \<Longrightarrow> i = j"
proof -
  assume a: "i < 2 ^ 32" "j < 2 ^ 32" "(word_of_nat i :: u32) = word_of_nat j"
  then have "unat (word_of_nat i :: u32) = unat (word_of_nat j :: u32)" by simp
  then show "i = j" using a(1,2) by (simp add: unat_of_nat)
qed

lemma distinct_seqs_written:
  assumes "length rs \<le> 2 ^ 32"
  shows "distinct (seqs_written ctx rs)"
proof -
  have "i = j" if "i < length rs" "j < length rs" "seqs_written ctx rs ! i = seqs_written ctx rs ! j" for i j
  proof -
    have "(word_of_nat i :: u32) = word_of_nat j"
      using that by (simp add: nth_seqs_written)
    moreover have "i < 2 ^ 32" "j < 2 ^ 32" using that assms by simp_all
    ultimately show ?thesis by (rule u32_of_nat_inj [rotated 2])
  qed
  then show ?thesis by (auto simp add: distinct_conv_nth length_seqs_written)
qed

lemma sorted_seqs_written:
  assumes "nextSeq ctx = 0" and "length rs \<le> 2 ^ 32"
  shows "sorted_wrt (<) (seqs_written ctx rs)"
proof -
  have "seqs_written ctx rs ! i < seqs_written ctx rs ! j" if "i < j" "j < length rs" for i j
  proof -
    have "i < 2 ^ 32" "j < 2 ^ 32" using that assms by simp_all
    then have "unat (word_of_nat i :: u32) = i" "unat (word_of_nat j :: u32) = j"
      by (simp_all add: unat_of_nat)
    then show ?thesis
      using that assms by (simp add: nth_seqs_written word_less_nat_alt)
  qed
  then show ?thesis by (simp add: sorted_wrt_iff_nth_less length_seqs_written)
qed

lemma nextSeq_builder:
  "nextSeq (fst (snd (nlPushAttr M ctx b t))) = nextSeq ctx"
  "nlPopAttr ctx b = Some (r, ctx', b') \<Longrightarrow> nextSeq ctx' = nextSeq ctx"
  "nextSeq (fst (snd (nlSendMessage ctx b w waitResponse handler))) = nextSeq ctx"
proof -
  show "nextSeq (fst (snd (nlPushAttr M ctx b t))) = nextSeq ctx"
    by (simp add: nlPushAttr_def Let_def)
  show "nextSeq ctx' = nextSeq ctx" if "nlPopAttr ctx b = Some (r, ctx', b')"
    using that by (auto simp add: nlPopAttr_def Let_def split: if_splits)
  show "nextSeq (fst (snd (nlSendMessage ctx b w waitResponse handler))) = nextSeq ctx"
    by (simp add: nlSendMessage_def Let_def split: prod.split option.split)
qed

text \<open>
  C9, as amended. A session's counter starts at 0, and each \<open>nlInitMessage\<close> writes the
  counter into the header and adds 1 to it modulo \<open>2 ^ 32\<close>: message number \<open>k\<close> of a
  session (from 0) carries \<open>k mod 2 ^ 32\<close>. Any \<open>2 ^ 32\<close> successive messages carry distinct
  sequence numbers, and the first \<open>2 ^ 32\<close> of a session carry strictly increasing ones.
\<close>

theorem sequence_counter:
  "(socket_ret os \<noteq> - 1 \<and> bind_ret os = 0 \<and> getsockname_ret os = 0 \<longrightarrow>
      fst (nlNewContextInPlace os mem) = 0 \<and> nextSeq (fst (snd (nlNewContextInPlace os mem))) = 0)
   \<and> get32 (msgBuffer (snd (nlInitMessage ctx b t f))) 8 = nextSeq ctx
   \<and> nextSeq (fst (nlInitMessage ctx b t f)) = nextSeq ctx + 1
   \<and> length (seqs_written ctx rs) = length rs
   \<and> (\<forall>k < length rs. seqs_written ctx rs ! k = nextSeq ctx + word_of_nat k)
   \<and> (length rs \<le> 2 ^ 32 \<longrightarrow> distinct (seqs_written ctx rs))
   \<and> (nextSeq ctx = 0 \<and> length rs \<le> 2 ^ 32 \<longrightarrow>
        sorted_wrt (<) (seqs_written ctx rs)
        \<and> (\<forall>k < length rs. unat (seqs_written ctx rs ! k) = k))"
proof -
  have 1: "socket_ret os \<noteq> - 1 \<and> bind_ret os = 0 \<and> getsockname_ret os = 0 \<longrightarrow>
      fst (nlNewContextInPlace os mem) = 0 \<and> nextSeq (fst (snd (nlNewContextInPlace os mem))) = 0"
    by (simp add: nlNewContextInPlace_def Let_def)
  have 2: "unat (seqs_written ctx rs ! k) = k"
    if "nextSeq ctx = 0" "length rs \<le> 2 ^ 32" "k < length rs" for k
  proof -
    have "k < 2 ^ 32" using that by simp
    then have "unat (word_of_nat k :: u32) = k" by (simp add: unat_of_nat)
    then show ?thesis using that by (simp add: nth_seqs_written)
  qed
  show ?thesis
    using 1 2 seq_written [of ctx b t f] nlInitMessage_facts(4) [of ctx b t f]
      length_seqs_written [of ctx rs] nth_seqs_written [of _ rs ctx]
      distinct_seqs_written [of rs ctx] sorted_seqs_written [of ctx rs]
    by blast
qed

theorem sequence_counter_witness:
  "socket_ret os_ok \<noteq> - 1 \<and> bind_ret os_ok = 0 \<and> getsockname_ret os_ok = 0
   \<and> fst (nlNewContextInPlace os_ok ctx0) = 0
   \<and> nextSeq (fst (snd (nlNewContextInPlace os_ok ctx0))) = 0
   \<and> nextSeq ctx0 = 0
   \<and> length [(buf_init (\<lambda>_. 0), 24 :: u16, 4 :: u16), (buf_init (\<lambda>_. 0), 24, 4), (buf_init (\<lambda>_. 0), 24, 4)] \<le> 2 ^ 32
   \<and> seqs_written ctx0 [(buf_init (\<lambda>_. 0), 24, 4), (buf_init (\<lambda>_. 0), 24, 4), (buf_init (\<lambda>_. 0), 24, 4)] ! 2 = 2
   \<and> distinct (seqs_written ctx0 [(buf_init (\<lambda>_. 0), 24, 4), (buf_init (\<lambda>_. 0), 24, 4), (buf_init (\<lambda>_. 0), 24, 4)])
   \<and> sorted_wrt (<) (seqs_written ctx0 [(buf_init (\<lambda>_. 0), 24, 4), (buf_init (\<lambda>_. 0), 24, 4), (buf_init (\<lambda>_. 0), 24, 4)])"
proof -
  let ?rs = "[(buf_init (\<lambda>_. 0), 24 :: u16, 4 :: u16), (buf_init (\<lambda>_. 0), 24, 4), (buf_init (\<lambda>_. 0), 24, 4)]"
  have h: "socket_ret os_ok \<noteq> - 1 \<and> bind_ret os_ok = 0 \<and> getsockname_ret os_ok = 0"
    "nextSeq ctx0 = 0" "length ?rs \<le> 2 ^ 32" "(2 :: nat) < length ?rs"
    by (simp_all add: os_ok_def ctx0_def)
  note t = sequence_counter [of os_ok ctx0 ctx0 "buf_init (\<lambda>_. 0)" 24 4 ?rs]
  have "seqs_written ctx0 ?rs ! 2 = nextSeq ctx0 + word_of_nat 2"
    using t h(4) by blast
  then have n: "seqs_written ctx0 ?rs ! 2 = 2" using h(2) by simp
  show ?thesis using t h n by blast
qed

lemma length_many_requests: "length many_requests = 2 ^ 32 + 1"
  unfolding many_requests_def by (rule length_replicate)

text \<open>Message number \<open>2 ^ 32\<close> follows sequence number \<open>0xFFFFFFFF\<close> with sequence number 0,
  which the first message of the session carried.\<close>

theorem sequence_number_reused:
  "seqs_written ctx0 many_requests ! 0 = 0
   \<and> seqs_written ctx0 many_requests ! (2 ^ 32 - 1) = 0xFFFFFFFF
   \<and> seqs_written ctx0 many_requests ! (2 ^ 32) = 0"
proof -
  have n: "nextSeq ctx0 = 0" by (simp add: ctx0_def)
  have "(0 :: nat) < length many_requests" "(2 ^ 32 - 1 :: nat) < length many_requests"
    "(2 ^ 32 :: nat) < length many_requests"
    unfolding length_many_requests by simp_all
  then have "seqs_written ctx0 many_requests ! 0 = nextSeq ctx0 + word_of_nat 0"
    "seqs_written ctx0 many_requests ! (2 ^ 32 - 1) = nextSeq ctx0 + word_of_nat (2 ^ 32 - 1)"
    "seqs_written ctx0 many_requests ! (2 ^ 32) = nextSeq ctx0 + word_of_nat (2 ^ 32)"
    by (simp_all only: nth_seqs_written)
  moreover have "(word_of_nat (2 ^ 32 - 1) :: u32) = 0xFFFFFFFF" by simp
  moreover have "(word_of_nat (2 ^ 32) :: u32) = 0" by simp
  ultimately show ?thesis unfolding n by simp
qed

subsection \<open>Runs of the transport\<close>

lemma errmsg_0: "errmsg 0 0 = [36, 0,0,0, 2,0, 0,0, 0,0,0,0, 0,0,0,0, 0,0,0,0,
   0,0,0,0, 0,0,0,0, 0,0,0,0, 0,0,0,0]"
  by (simp add: errmsg_def nlmsg_def put32_def put16_def NLMSG_consts NLMSG_ERROR_def)

lemma errmsg_13: "errmsg 0 (- 13) = [36, 0,0,0, 2,0, 0,0, 0,0,0,0, 0,0,0,0, 0xF3,0xFF,0xFF,0xFF,
   0,0,0,0, 0,0,0,0, 0,0,0,0, 0,0,0,0]"
  by (simp add: errmsg_def nlmsg_def put32_def put16_def NLMSG_consts NLMSG_ERROR_def)

lemma recv_error_step:
  "recv_loop seq handler iovlen (RecvErr e # q) b a hs =
     (if e = EINTR then recv_loop seq handler iovlen q b a hs else (Returns e, q, b, a, hs))"
  by (simp add: ENOBUFS_def EAGAIN_def Let_def)

lemma first_request_eq:
  "first_request =
   (ctx0\<lparr>nextSeq := 1\<rparr>,
    \<lparr>msgBuffer = [0,0,0,0, 24,0, 5,0, 0,0,0,0, 0,0,0,0, 0,0,0,0, 0,0,0,0, 0,0,0,0, 0,0,0,0],
      msgBufferLen = 16, fresh = (\<lambda>_. 0)\<rparr>)"
  by (simp add: first_request_def ctx0_def buf_init_def run_defs upt_conv_Cons)

lemmas send_defs = nlSendMessage_def nlResetSpace_def nlReserveSpace_def nlBufferTail_def
  msgBufferCap_def realloc_def store_def put32_def Let_def NLMSG_consts size_t_def world_of_def

lemma run_enobufs:
  "fst (nlSendMessage (fst first_request) (snd first_request)
         (world_of [Sent] [RecvErr ENOBUFS, Recv (errmsg 0 0) 12]) True None) = Returns 105"
  by (simp add: first_request_eq ctx0_def send_defs recv_error_step ENOBUFS_def EINTR_def
      del: upt_rec_numeral recv_loop.simps)

lemmas scan_defs = NLMSG_OK_def get32_def get16_def NLMSG_ALIGN_def NLMSG_DONE_def NLMSG_ERROR_def
  sizeof_sockaddr_nl_def

lemma run_ack:
  "fst (nlSendMessage (fst first_request) (snd first_request)
         (world_of [Sent] [Recv (errmsg 0 0) 12]) True None) = Returns 0"
  by (simp add: first_request_eq ctx0_def send_defs errmsg_0 scan_defs
      del: upt_rec_numeral)

subsection \<open>The scan of a batch\<close>

declare scan.simps [simp del]

lemma scan_done:
  "NLMSG_OK m nlm res \<Longrightarrow> get16 m (nlm + 4) = NLMSG_DONE \<Longrightarrow>
   scan seq handler m nlm res found a hs = (None, found, a, hs)"
  by (subst scan.simps) (simp add: Let_def)

lemma scan_skip:
  "NLMSG_OK m nlm res \<Longrightarrow> get16 m (nlm + 4) \<noteq> NLMSG_DONE \<Longrightarrow> get32 m (nlm + 8) \<noteq> seq \<Longrightarrow>
   scan seq handler m nlm res found a hs =
     scan seq handler m (nlm + NLMSG_ALIGN (unat (get32 m nlm)))
       (res - int (NLMSG_ALIGN (unat (get32 m nlm)))) found a hs"
  by (subst scan.simps) (simp add: Let_def)

lemma scan_error:
  "NLMSG_OK m nlm res \<Longrightarrow> get16 m (nlm + 4) = NLMSG_ERROR \<Longrightarrow> get32 m (nlm + 8) = seq \<Longrightarrow>
   nlm + NLMSG_HDRLEN + 4 \<le> length m \<Longrightarrow> get32 m (nlm + NLMSG_HDRLEN) \<noteq> 0 \<Longrightarrow>
   sint (get32 m (nlm + NLMSG_HDRLEN)) \<noteq> - (2 ^ 31) \<Longrightarrow>
   scan seq handler m nlm res found a hs =
     (Some (Returns (- sint (get32 m (nlm + NLMSG_HDRLEN)))), True, a, hs)"
  by (subst scan.simps) (simp add: Let_def NLMSG_ERROR_def NLMSG_DONE_def)

text \<open>A record is accepted when it is neither the end-of-batch record nor an error
  record with a status other than 0.\<close>

lemma scan_accept_no_handler:
  "NLMSG_OK m nlm res \<Longrightarrow> get16 m (nlm + 4) \<noteq> NLMSG_DONE \<Longrightarrow> get32 m (nlm + 8) = seq \<Longrightarrow>
   get16 m (nlm + 4) \<noteq> NLMSG_ERROR \<or>
     (nlm + NLMSG_HDRLEN + 4 \<le> length m \<and> get32 m (nlm + NLMSG_HDRLEN) = 0) \<Longrightarrow>
   scan seq None m nlm res found a hs =
     scan seq None m (nlm + NLMSG_ALIGN (unat (get32 m nlm)))
       (res - int (NLMSG_ALIGN (unat (get32 m nlm)))) True a hs"
  by (subst scan.simps) (auto simp add: Let_def)

lemma scan_accept_handler:
  assumes "NLMSG_OK m nlm res" and "get16 m (nlm + 4) \<noteq> NLMSG_DONE" and "get32 m (nlm + 8) = seq"
    and "get16 m (nlm + 4) \<noteq> NLMSG_ERROR \<or>
     (nlm + NLMSG_HDRLEN + 4 \<le> length m \<and> get32 m (nlm + NLMSG_HDRLEN) = 0)"
  shows "scan seq (Some h) m nlm res found a hs =
     (let len = get32 m nlm - 16;
          data = take (unat len) (drop (nlm + 16) m);
          call = HCall data len (get16 m (nlm + 4)) (get16 m (nlm + 6));
          r = h data len (get16 m (nlm + 4)) (get16 m (nlm + 6)) a
      in if fst r \<noteq> 0 then (Some (Returns (fst r)), True, snd r, hs @ [call])
         else scan seq (Some h) m (nlm + NLMSG_ALIGN (unat (get32 m nlm)))
                (res - int (NLMSG_ALIGN (unat (get32 m nlm)))) True (snd r) (hs @ [call]))"
  using assms
  by (subst scan.simps) (auto simp add: Let_def NLMSG_consts split: prod.split)

text \<open>What a batch contributes: the value the scan returns is the value of the call; a
  scan that found a matching record ends the call with 0; otherwise the next read follows.\<close>

lemma recv_loop_scan:
  assumes "0 < length bytes" and "0 < iovlen" and "namelen = sizeof_sockaddr_nl"
    and "scan seq handler (store 0 (take iovlen bytes) (msgBuffer b)) 0
           (int (min (length bytes) iovlen)) False a hs = (r, found, a', hs')"
  shows "recv_loop seq handler iovlen (Recv bytes namelen # q) b a hs =
     (case r of
        Some v \<Rightarrow> (v, q, b\<lparr>msgBuffer := store 0 (take iovlen bytes) (msgBuffer b)\<rparr>, a', hs')
      | None \<Rightarrow>
          if found
          then (Returns 0, q, b\<lparr>msgBuffer := store 0 (take iovlen bytes) (msgBuffer b)\<rparr>, a', hs')
          else recv_loop seq handler iovlen q
                 (b\<lparr>msgBuffer := store 0 (take iovlen bytes) (msgBuffer b)\<rparr>) a' hs')"
proof -
  define n where "n = min (length bytes) iovlen"
  have "n \<noteq> 0" using assms(1,2) by (simp add: n_def min_def)
  then show ?thesis
    using assms(3,4) unfolding n_def [symmetric]
    by (simp add: Let_def n_def [symmetric] split: option.split)
qed

lemma second_request_eq:
  "second_request =
   (ctx0\<lparr>nextSeq := 2\<rparr>,
    \<lparr>msgBuffer = [0,0,0,0, 24,0, 5,0, 1,0,0,0, 0,0,0,0, 0,0,0,0, 0,0,0,0, 0,0,0,0, 0,0,0,0],
      msgBufferLen = 16, fresh = (\<lambda>_. 0)\<rparr>)"
  by (simp add: second_request_def first_request_eq ctx0_def run_defs)

text \<open>
  C7, as amended. At a well-formed record (\<open>NLMSG_OK\<close>) the scan of a batch does one of
  three things. A record of type \<open>NLMSG_DONE\<close> ends the scan of the batch, whatever its
  sequence number: it is not accepted, and the records after it are not looked at. A
  record of another type whose sequence number differs from the awaited one is skipped:
  no error, no handler call, \<open>foundResponse\<close> unchanged. A record of another type with the
  awaited sequence number, unless it is an error record with a status other than 0, is
  accepted: \<open>foundResponse\<close> is set and the handler, if there is one, is called on it.
\<close>

theorem sequence_correlation:
  "NLMSG_OK m nlm res \<longrightarrow>
     (get16 m (nlm + 4) = NLMSG_DONE \<longrightarrow>
        scan seq handler m nlm res found a hs = (None, found, a, hs))
   \<and> (get16 m (nlm + 4) \<noteq> NLMSG_DONE \<and> get32 m (nlm + 8) \<noteq> seq \<longrightarrow>
        scan seq handler m nlm res found a hs =
          scan seq handler m (nlm + NLMSG_ALIGN (unat (get32 m nlm)))
            (res - int (NLMSG_ALIGN (unat (get32 m nlm)))) found a hs)
   \<and> (get16 m (nlm + 4) \<noteq> NLMSG_DONE \<and> get32 m (nlm + 8) = seq
        \<and> (get16 m (nlm + 4) \<noteq> NLMSG_ERROR
             \<or> (nlm + NLMSG_HDRLEN + 4 \<le> length m \<and> get32 m (nlm + NLMSG_HDRLEN) = 0)) \<longrightarrow>
        scan seq None m nlm res found a hs =
          scan seq None m (nlm + NLMSG_ALIGN (unat (get32 m nlm)))
            (res - int (NLMSG_ALIGN (unat (get32 m nlm)))) True a hs
        \<and> scan seq (Some h) m nlm res found a hs =
          (let len = get32 m nlm - 16;
               data = take (unat len) (drop (nlm + 16) m);
               call = HCall data len (get16 m (nlm + 4)) (get16 m (nlm + 6));
               r = h data len (get16 m (nlm + 4)) (get16 m (nlm + 6)) a
           in if fst r \<noteq> 0 then (Some (Returns (fst r)), True, snd r, hs @ [call])
              else scan seq (Some h) m (nlm + NLMSG_ALIGN (unat (get32 m nlm)))
                     (res - int (NLMSG_ALIGN (unat (get32 m nlm)))) True (snd r) (hs @ [call])))"
  using scan_done [of m nlm res seq handler found a hs]
    scan_skip [of m nlm res seq handler found a hs]
    scan_accept_no_handler [of m nlm res seq found a hs]
    scan_accept_handler [of m nlm res seq h found a hs]
  by blast

lemmas full_run = ctx0_def send_defs scan_defs scan.simps errmsg_def nlmsg_def put16_def
  count_handler_def

lemma run_stale_then_ack:
  "fst (nlSendMessage (fst second_request) (snd second_request)
     (world_of [Sent] [Recv (errmsg 0 0 @ errmsg 1 0) 12]) True (Some count_handler)) = Returns 0
   \<and> snd (snd (snd (nlSendMessage (fst second_request) (snd second_request)
     (world_of [Sent] [Recv (errmsg 0 0 @ errmsg 1 0) 12]) True (Some count_handler)))) =
    \<lparr>sendq = [], recvq = [], sent = [[16,0,0,0, 24,0, 5,0, 1,0,0,0, 0,0,0,0]],
     handled = [HCall [0,0,0,0, 0,0,0,0, 0,0,0,0, 0,0,0,0, 0,0,0,0] 20 NLMSG_ERROR 0],
     harg = 1\<rparr>"
  by (simp add: second_request_eq full_run del: upt_rec_numeral)

lemma run_done_then_error:
  "fst (nlSendMessage (fst second_request) (snd second_request)
     (world_of [Sent] [Recv (nlmsg NLMSG_DONE 0 [] @ errmsg 1 (- 13)) 12, Recv [] 12])
     True (Some count_handler)) = Returns (- 1)
   \<and> snd (snd (snd (nlSendMessage (fst second_request) (snd second_request)
     (world_of [Sent] [Recv (nlmsg NLMSG_DONE 0 [] @ errmsg 1 (- 13)) 12, Recv [] 12])
     True (Some count_handler)))) =
    \<lparr>sendq = [], recvq = [], sent = [[16,0,0,0, 24,0, 5,0, 1,0,0,0, 0,0,0,0]],
     handled = [], harg = 0\<rparr>"
  by (simp add: second_request_eq full_run del: upt_rec_numeral)

lemma run_ack_then_error:
  "fst (nlSendMessage (fst second_request) (snd second_request)
     (world_of [Sent] [Recv (errmsg 0 0 @ errmsg 1 (- 13)) 12, Recv [] 12])
     True (Some count_handler)) = Returns 13"
  by (simp add: second_request_eq full_run del: upt_rec_numeral)

lemma run_done_matching:
  "fst (nlSendMessage (fst second_request) (snd second_request)
     (world_of [Sent] [Recv (nlmsg NLMSG_DONE 1 []) 12, Recv [] 12])
     True (Some count_handler)) = Returns (- 1)"
  by (simp add: second_request_eq full_run del: upt_rec_numeral)

lemma run_transient_send:
  "fst (nlSendMessage (fst first_request) (snd first_request)
     (world_of [SendErr EAGAIN, SendErr EINTR, Sent] []) False None) = Returns 0
   \<and> snd (snd (snd (nlSendMessage (fst first_request) (snd first_request)
     (world_of [SendErr EAGAIN, SendErr EINTR, Sent] []) False None))) =
    \<lparr>sendq = [], recvq = [],
     sent = [[16,0,0,0, 24,0, 5,0, 0,0,0,0, 0,0,0,0], [16,0,0,0, 24,0, 5,0, 0,0,0,0, 0,0,0,0],
             [16,0,0,0, 24,0, 5,0, 0,0,0,0, 0,0,0,0]],
     handled = [], harg = 0\<rparr>"
  by (simp add: first_request_eq full_run EAGAIN_def EINTR_def del: upt_rec_numeral)

theorem sequence_correlation_witness:
  "NLMSG_OK (errmsg 0 0 @ errmsg 1 0) 0 72
   \<and> get16 (errmsg 0 0 @ errmsg 1 0) 4 \<noteq> NLMSG_DONE
   \<and> get32 (errmsg 0 0 @ errmsg 1 0) 8 \<noteq> 1
   \<and> scan 1 (Some count_handler) (errmsg 0 0 @ errmsg 1 0) 0 72 False 0 [] =
       scan 1 (Some count_handler) (errmsg 0 0 @ errmsg 1 0) 36 36 False 0 []
   \<and> scan 1 (Some count_handler) (errmsg 0 0 @ errmsg 1 0) 36 36 False 0 [] =
       (None, True, 1, [HCall [0,0,0,0, 0,0,0,0, 0,0,0,0, 0,0,0,0, 0,0,0,0] 20 NLMSG_ERROR 0])
   \<and> fst (nlSendMessage (fst second_request) (snd second_request)
         (world_of [Sent] [Recv (errmsg 0 0 @ errmsg 1 0) 12]) True (Some count_handler)) = Returns 0
   \<and> handled (snd (snd (snd (nlSendMessage (fst second_request) (snd second_request)
         (world_of [Sent] [Recv (errmsg 0 0 @ errmsg 1 0) 12]) True (Some count_handler))))) =
       [HCall [0,0,0,0, 0,0,0,0, 0,0,0,0, 0,0,0,0, 0,0,0,0] 20 NLMSG_ERROR 0]"
proof -
  have e: "errmsg 0 0 @ errmsg 1 0 =
    [36, 0,0,0, 2,0, 0,0, 0,0,0,0, 0,0,0,0, 0,0,0,0, 0,0,0,0, 0,0,0,0, 0,0,0,0, 0,0,0,0,
     36, 0,0,0, 2,0, 0,0, 1,0,0,0, 0,0,0,0, 0,0,0,0, 0,0,0,0, 0,0,0,0, 0,0,0,0, 0,0,0,0]"
    by (simp add: errmsg_def nlmsg_def put32_def put16_def NLMSG_consts NLMSG_ERROR_def)
  have h: "NLMSG_OK (errmsg 0 0 @ errmsg 1 0) 0 72"
    "get16 (errmsg 0 0 @ errmsg 1 0) 4 \<noteq> NLMSG_DONE"
    "get32 (errmsg 0 0 @ errmsg 1 0) 8 \<noteq> 1"
    "get32 (errmsg 0 0 @ errmsg 1 0) 0 = 36"
    unfolding e by (simp_all add: scan_defs)
  have s: "scan 1 (Some count_handler) (errmsg 0 0 @ errmsg 1 0) 36 36 False 0 [] =
       (None, True, 1, [HCall [0,0,0,0, 0,0,0,0, 0,0,0,0, 0,0,0,0, 0,0,0,0] 20 NLMSG_ERROR 0])"
    unfolding e by (simp add: scan.simps scan_defs count_handler_def NLMSG_consts)
  show ?thesis
    using sequence_correlation [of "errmsg 0 0 @ errmsg 1 0" 0 72 1 "Some count_handler" False 0 "[]"] h s
      run_stale_then_ack
    by (simp add: NLMSG_ALIGN_def)
qed

text \<open>
  The claim as stated fails where the record with sequence number \<open>N - 1\<close> is the
  end-of-batch record: the record with sequence number \<open>N\<close> behind it is never looked at
  (here the next read finds the socket closed and the call returns \<open>-1\<close>, where an
  acknowledgement in front of the same record lets the call return 13). An end-of-batch
  record that carries sequence number \<open>N\<close> itself is not accepted either.
\<close>

theorem done_record_ends_scan:
  "get32 (nlmsg NLMSG_DONE 0 [] @ errmsg 1 (- 13)) 8 = 0
   \<and> get32 (nlmsg NLMSG_DONE 0 [] @ errmsg 1 (- 13)) (16 + 8) = 1
   \<and> get32 (msgBuffer (snd second_request)) 8 = 1
   \<and> fst (nlSendMessage (fst second_request) (snd second_request)
         (world_of [Sent] [Recv (nlmsg NLMSG_DONE 0 [] @ errmsg 1 (- 13)) 12, Recv [] 12])
         True (Some count_handler)) = Returns (- 1)
   \<and> handled (snd (snd (snd (nlSendMessage (fst second_request) (snd second_request)
         (world_of [Sent] [Recv (nlmsg NLMSG_DONE 0 [] @ errmsg 1 (- 13)) 12, Recv [] 12])
         True (Some count_handler))))) = []
   \<and> fst (nlSendMessage (fst second_request) (snd second_request)
         (world_of [Sent] [Recv (errmsg 0 0 @ errmsg 1 (- 13)) 12, Recv [] 12])
         True (Some count_handler)) = Returns 13
   \<and> fst (nlSendMessage (fst second_request) (snd second_request)
         (world_of [Sent] [Recv (nlmsg NLMSG_DONE 1 []) 12, Recv [] 12])
         True (Some count_handler)) = Returns (- 1)"
proof -
  have 1: "get32 (nlmsg NLMSG_DONE 0 [] @ errmsg 1 (- 13)) 8 = 0"
    "get32 (nlmsg NLMSG_DONE 0 [] @ errmsg 1 (- 13)) (16 + 8) = 1"
    "get32 (msgBuffer (snd second_request)) 8 = 1"
    by (simp_all add: second_request_eq errmsg_def nlmsg_def put32_def put16_def get32_def
        NLMSG_consts)
  show ?thesis
    using 1 run_done_then_error run_ack_then_error run_done_matching by simp
qed

lemma scan_step_scan:
  assumes "scan_step seq handler m (nlm, res, found, a, hs) = Some (nlm', res', found', a', hs')"
  shows "scan seq handler m nlm res found a hs = scan seq handler m nlm' res' found' a' hs'"
  using assms
  by (subst scan.simps)
    (auto simp add: scan_step_def Let_def split: if_splits option.splits prod.splits)

lemma scan_steps_scan:
  "scan_steps seq handler m k (nlm, res, found, a, hs) = Some (nlm', res', found', a', hs') \<Longrightarrow>
   scan seq handler m nlm res found a hs = scan seq handler m nlm' res' found' a' hs'"
proof (induction k arbitrary: nlm res found a hs)
  case 0
  then show ?case by simp
next
  case (Suc k)
  from Suc.prems obtain s where s: "scan_step seq handler m (nlm, res, found, a, hs) = Some s"
    and r: "scan_steps seq handler m k s = Some (nlm', res', found', a', hs')"
    by (auto split: option.splits)
  obtain n1 r1 f1 a1 h1 where s1: "s = (n1, r1, f1, a1, h1)" by (cases s) auto
  have "scan seq handler m nlm res found a hs = scan seq handler m n1 r1 f1 a1 h1"
    using s unfolding s1 by (rule scan_step_scan)
  also have "\<dots> = scan seq handler m nlm' res' found' a' hs'"
    using r unfolding s1 by (rule Suc.IH)
  finally show ?case .
qed

lemma recv_loop_error_record:
  assumes "bytes \<noteq> []" and "0 < iovlen" and "namelen = sizeof_sockaddr_nl"
    and m: "m = store 0 (take iovlen bytes) (msgBuffer b)"
    and reach: "scan_steps seq handler m k (0, int (min (length bytes) iovlen), False, a, hs) =
       Some (nlm, res, fnd, a', hs')"
    and r: "NLMSG_OK m nlm res" "get16 m (nlm + 4) = NLMSG_ERROR" "get32 m (nlm + 8) = seq"
      "nlm + NLMSG_HDRLEN + 4 \<le> length m" "get32 m (nlm + NLMSG_HDRLEN) \<noteq> 0"
      "sint (get32 m (nlm + NLMSG_HDRLEN)) \<noteq> - (2 ^ 31)"
  shows "recv_loop seq handler iovlen (Recv bytes namelen # q) b a hs =
     (Returns (- sint (get32 m (nlm + NLMSG_HDRLEN))), q, b\<lparr>msgBuffer := m\<rparr>, a', hs')"
proof -
  have "scan seq handler m 0 (int (min (length bytes) iovlen)) False a hs =
      scan seq handler m nlm res fnd a' hs'"
    using reach by (rule scan_steps_scan)
  also have "\<dots> = (Some (Returns (- sint (get32 m (nlm + NLMSG_HDRLEN)))), True, a', hs')"
    using r by (rule scan_error)
  finally have s: "scan seq handler (store 0 (take iovlen bytes) (msgBuffer b)) 0
      (int (min (length bytes) iovlen)) False a hs =
      (Some (Returns (- sint (get32 m (nlm + NLMSG_HDRLEN)))), True, a', hs')"
    unfolding m .
  have "0 < length bytes" using assms(1) by simp
  from recv_loop_scan [OF this assms(2,3) s, of q]
  show ?thesis by (simp add: m)
qed

lemma cap_awaiting: "4096 \<le> msgBufferCap (awaiting b)"
  unfolding awaiting_def by (rule cap_reset)

text \<open>\<open>nlSendMessage\<close> once the message is out and the response is awaited.\<close>

lemma nlSendMessage_awaits:
  assumes d: "attrDepth ctx = 0" and h: "NLMSG_HDRLEN \<le> msgBufferLen b"
    and c: "msgBufferLen b \<le> msgBufferCap b" and l: "msgBufferLen b < 2 ^ 32"
    and s: "send_loop (sendq w) = (None, n)"
  shows "nlSendMessage ctx b w True handler =
     (case recv_loop (get32 (msgBuffer b) 8) handler (msgBufferCap (awaiting b)) (recvq w)
             (awaiting b) (harg w) (handled w) of
        (v, q, b3, a, hs) \<Rightarrow>
          (v, ctx\<lparr>iov_len := msgBufferCap (awaiting b)\<rparr>, b3,
           w\<lparr>sendq := drop n (sendq w),
             sent := sent w @ replicate n (take (msgBufferLen b)
                       (store 0 (put32 (word_of_nat (msgBufferLen b))) (msgBuffer b))),
             recvq := q, harg := a, handled := hs\<rparr>))"
proof -
  let ?len = "word_of_nat (msgBufferLen b) :: u32"
  let ?m1 = "store 0 (put32 ?len) (msgBuffer b)"
  have u: "unat ?len = msgBufferLen b"
    unfolding unat_of_nat using l by simp
  have c16: "16 \<le> length (msgBuffer b)"
    using h c by (simp add: NLMSG_consts msgBufferCap_def)
  then have c4: "0 + length (put32 ?len) \<le> length (msgBuffer b)" by (simp add: put32_def)
  have cap1: "length ?m1 = length (msgBuffer b)"
    using c4 by (rule length_store)
  have seq: "get32 ?m1 8 = get32 (msgBuffer b) 8"
    using c4 by (simp add: get32_store_other put32_def)
  have aw: "nlResetSpace (b\<lparr>msgBuffer := ?m1\<rparr>) 4096 = awaiting b"
    by (simp add: awaiting_def nlBufferTail_def)
  have n1: "\<not> length (msgBuffer b) < NLMSG_HDRLEN" using c16 by (simp add: NLMSG_consts)
  have n2: "\<not> length (msgBuffer b) < msgBufferLen b" using c by (simp add: msgBufferCap_def)
  show ?thesis
    using d n1 n2 s
    by (simp add: nlSendMessage_def Let_def nlBufferTail_def u cap1 seq aw
        msgBufferCap_def [of b] msgBufferCap_def [of "b\<lparr>msgBuffer := ?m1\<rparr>"]
        split: prod.split)
qed

text \<open>
  C8, as amended. Let the scan of a received batch reach, behind \<open>k\<close> records that it
  skipped or accepted, a well-formed error record with the awaited sequence number and a
  status \<open>s\<close> other than 0 (and other than the least \<open>int\<close>, whose negation C does not
  define), the status lying inside the buffer. Then the receive loop ends at that record
  with \<open>- s\<close>, a positive value for negative \<open>s\<close>; and where the batch is the first that a
  call reads, \<open>nlSendMessage\<close> returns \<open>- s\<close> to its caller, 13 (\<open>EACCES\<close>) for status \<open>-13\<close>.
  The handler's object and the list of its invocations are what they were when the scan
  reached the record: the handler is not called for it.
\<close>

theorem kernel_error_decoding:
  "(bytes \<noteq> [] \<and> 0 < iovlen \<and> namelen = sizeof_sockaddr_nl
    \<and> m = store 0 (take iovlen bytes) (msgBuffer b0)
    \<and> scan_steps seq handler m k (0, int (min (length bytes) iovlen), False, a0, hs0) =
         Some (nlm, res, fnd, a, hs)
    \<and> NLMSG_OK m nlm res \<and> get16 m (nlm + 4) = NLMSG_ERROR \<and> get32 m (nlm + 8) = seq
    \<and> nlm + NLMSG_HDRLEN + 4 \<le> length m
    \<and> get32 m (nlm + NLMSG_HDRLEN) \<noteq> 0 \<and> sint (get32 m (nlm + NLMSG_HDRLEN)) \<noteq> - (2 ^ 31)
    \<longrightarrow>
      recv_loop seq handler iovlen (Recv bytes namelen # q) b0 a0 hs0 =
        (Returns (- sint (get32 m (nlm + NLMSG_HDRLEN))), q, b0\<lparr>msgBuffer := m\<rparr>, a, hs)
      \<and> (sint (get32 m (nlm + NLMSG_HDRLEN)) < 0 \<longrightarrow> 0 < - sint (get32 m (nlm + NLMSG_HDRLEN))))
   \<and> (attrDepth ctx = 0 \<and> NLMSG_HDRLEN \<le> msgBufferLen b \<and> msgBufferLen b \<le> msgBufferCap b
    \<and> msgBufferLen b < 2 ^ 32 \<and> send_loop (sendq w) = (None, n)
    \<and> recvq w = Recv bytes namelen # q \<and> bytes \<noteq> [] \<and> namelen = sizeof_sockaddr_nl
    \<and> seq = get32 (msgBuffer b) 8
    \<and> m = received (awaiting b) bytes
    \<and> scan_steps seq handler m k
         (0, int (min (length bytes) (msgBufferCap (awaiting b))), False, harg w, handled w) =
         Some (nlm, res, fnd, a, hs)
    \<and> NLMSG_OK m nlm res \<and> get16 m (nlm + 4) = NLMSG_ERROR \<and> get32 m (nlm + 8) = seq
    \<and> nlm + NLMSG_HDRLEN + 4 \<le> length m
    \<and> get32 m (nlm + NLMSG_HDRLEN) \<noteq> 0 \<and> sint (get32 m (nlm + NLMSG_HDRLEN)) \<noteq> - (2 ^ 31)
    \<longrightarrow>
      fst (nlSendMessage ctx b w True handler) = Returns (- sint (get32 m (nlm + NLMSG_HDRLEN)))
      \<and> handled (snd (snd (snd (nlSendMessage ctx b w True handler)))) = hs
      \<and> harg (snd (snd (snd (nlSendMessage ctx b w True handler)))) = a
      \<and> recvq (snd (snd (snd (nlSendMessage ctx b w True handler)))) = q
      \<and> (get32 m (nlm + NLMSG_HDRLEN) = - 13 \<longrightarrow>
           fst (nlSendMessage ctx b w True handler) = Returns EACCES))"
proof (intro conjI impI)
  assume A: "bytes \<noteq> [] \<and> 0 < iovlen \<and> namelen = sizeof_sockaddr_nl
    \<and> m = store 0 (take iovlen bytes) (msgBuffer b0)
    \<and> scan_steps seq handler m k (0, int (min (length bytes) iovlen), False, a0, hs0) =
         Some (nlm, res, fnd, a, hs)
    \<and> NLMSG_OK m nlm res \<and> get16 m (nlm + 4) = NLMSG_ERROR \<and> get32 m (nlm + 8) = seq
    \<and> nlm + NLMSG_HDRLEN + 4 \<le> length m
    \<and> get32 m (nlm + NLMSG_HDRLEN) \<noteq> 0 \<and> sint (get32 m (nlm + NLMSG_HDRLEN)) \<noteq> - (2 ^ 31)"
  then have a: "bytes \<noteq> []" "0 < iovlen" "namelen = sizeof_sockaddr_nl"
    "m = store 0 (take iovlen bytes) (msgBuffer b0)"
    "scan_steps seq handler m k (0, int (min (length bytes) iovlen), False, a0, hs0) =
         Some (nlm, res, fnd, a, hs)"
    "NLMSG_OK m nlm res" "get16 m (nlm + 4) = NLMSG_ERROR" "get32 m (nlm + 8) = seq"
    "nlm + NLMSG_HDRLEN + 4 \<le> length m" "get32 m (nlm + NLMSG_HDRLEN) \<noteq> 0"
    "sint (get32 m (nlm + NLMSG_HDRLEN)) \<noteq> - (2 ^ 31)"
    by blast+
  show "recv_loop seq handler iovlen (Recv bytes namelen # q) b0 a0 hs0 =
        (Returns (- sint (get32 m (nlm + NLMSG_HDRLEN))), q, b0\<lparr>msgBuffer := m\<rparr>, a, hs)"
    by (rule recv_loop_error_record [OF a])
  show "0 < - sint (get32 m (nlm + NLMSG_HDRLEN))" if "sint (get32 m (nlm + NLMSG_HDRLEN)) < 0"
    using that by simp
next
  assume B: "attrDepth ctx = 0 \<and> NLMSG_HDRLEN \<le> msgBufferLen b \<and> msgBufferLen b \<le> msgBufferCap b
    \<and> msgBufferLen b < 2 ^ 32 \<and> send_loop (sendq w) = (None, n)
    \<and> recvq w = Recv bytes namelen # q \<and> bytes \<noteq> [] \<and> namelen = sizeof_sockaddr_nl
    \<and> seq = get32 (msgBuffer b) 8
    \<and> m = received (awaiting b) bytes
    \<and> scan_steps seq handler m k
         (0, int (min (length bytes) (msgBufferCap (awaiting b))), False, harg w, handled w) =
         Some (nlm, res, fnd, a, hs)
    \<and> NLMSG_OK m nlm res \<and> get16 m (nlm + 4) = NLMSG_ERROR \<and> get32 m (nlm + 8) = seq
    \<and> nlm + NLMSG_HDRLEN + 4 \<le> length m
    \<and> get32 m (nlm + NLMSG_HDRLEN) \<noteq> 0 \<and> sint (get32 m (nlm + NLMSG_HDRLEN)) \<noteq> - (2 ^ 31)"
  then have b: "bytes \<noteq> []" "namelen = sizeof_sockaddr_nl"
    "scan_steps seq handler m k
         (0, int (min (length bytes) (msgBufferCap (awaiting b))), False, harg w, handled w) =
         Some (nlm, res, fnd, a, hs)"
    "NLMSG_OK m nlm res" "get16 m (nlm + 4) = NLMSG_ERROR" "get32 m (nlm + 8) = seq"
    "nlm + NLMSG_HDRLEN + 4 \<le> length m" "get32 m (nlm + NLMSG_HDRLEN) \<noteq> 0"
    "sint (get32 m (nlm + NLMSG_HDRLEN)) \<noteq> - (2 ^ 31)"
    by blast+
  have pos: "0 < msgBufferCap (awaiting b)" using cap_awaiting [of b] by simp
  have "m = received (awaiting b) bytes" using B by blast
  then have m: "m = store 0 (take (msgBufferCap (awaiting b)) bytes) (msgBuffer (awaiting b))"
    by (simp only: received_def)
  have rl: "recv_loop seq handler (msgBufferCap (awaiting b)) (Recv bytes namelen # q)
        (awaiting b) (harg w) (handled w) =
      (Returns (- sint (get32 m (nlm + NLMSG_HDRLEN))), q, (awaiting b)\<lparr>msgBuffer := m\<rparr>, a, hs)"
    by (rule recv_loop_error_record [OF b(1) pos b(2) m b(3-9)])
  have call: "nlSendMessage ctx b w True handler =
     (case recv_loop seq handler (msgBufferCap (awaiting b)) (Recv bytes namelen # q)
             (awaiting b) (harg w) (handled w) of
        (v, q, b3, a, hs) \<Rightarrow>
          (v, ctx\<lparr>iov_len := msgBufferCap (awaiting b)\<rparr>, b3,
           w\<lparr>sendq := drop n (sendq w),
             sent := sent w @ replicate n (take (msgBufferLen b)
                       (store 0 (put32 (word_of_nat (msgBufferLen b))) (msgBuffer b))),
             recvq := q, harg := a, handled := hs\<rparr>))"
  proof -
    have "attrDepth ctx = 0" "NLMSG_HDRLEN \<le> msgBufferLen b" "msgBufferLen b \<le> msgBufferCap b"
      "msgBufferLen b < 2 ^ 32" "send_loop (sendq w) = (None, n)"
      "recvq w = Recv bytes namelen # q" "seq = get32 (msgBuffer b) 8"
      using B by blast+
    then show ?thesis using nlSendMessage_awaits [of ctx b w n handler] by simp
  qed
  show r: "fst (nlSendMessage ctx b w True handler) = Returns (- sint (get32 m (nlm + NLMSG_HDRLEN)))"
    unfolding call rl by simp
  show "handled (snd (snd (snd (nlSendMessage ctx b w True handler)))) = hs"
    unfolding call rl by simp
  show "harg (snd (snd (snd (nlSendMessage ctx b w True handler)))) = a"
    unfolding call rl by simp
  show "recvq (snd (snd (snd (nlSendMessage ctx b w True handler)))) = q"
    unfolding call rl by simp
  show "fst (nlSendMessage ctx b w True handler) = Returns EACCES"
    if "get32 m (nlm + NLMSG_HDRLEN) = - 13"
    using r that by (simp add: EACCES_def)
qed

lemmas reach_defs = second_request_eq received_def awaiting_def scan_step_def full_run

theorem kernel_error_decoding_witness:
  "attrDepth (fst second_request) = 0
   \<and> NLMSG_HDRLEN \<le> msgBufferLen (snd second_request)
   \<and> msgBufferLen (snd second_request) \<le> msgBufferCap (snd second_request)
   \<and> msgBufferLen (snd second_request) < 2 ^ 32
   \<and> send_loop (sendq (world_of [Sent] [Recv (errmsg 0 0 @ errmsg 1 (- 13)) 12])) = (None, 1)
   \<and> get32 (msgBuffer (snd second_request)) 8 = 1
   \<and> scan_steps 1 (Some count_handler)
         (received (awaiting (snd second_request)) (errmsg 0 0 @ errmsg 1 (- 13))) 1
         (0, 72, False, 0, []) = Some (36, 36, False, 0, [])
   \<and> NLMSG_OK (received (awaiting (snd second_request)) (errmsg 0 0 @ errmsg 1 (- 13))) 36 36
   \<and> get16 (received (awaiting (snd second_request)) (errmsg 0 0 @ errmsg 1 (- 13))) (36 + 4) = NLMSG_ERROR
   \<and> get32 (received (awaiting (snd second_request)) (errmsg 0 0 @ errmsg 1 (- 13))) (36 + 8) = 1
   \<and> get32 (received (awaiting (snd second_request)) (errmsg 0 0 @ errmsg 1 (- 13))) (36 + 16) = - 13
   \<and> fst (nlSendMessage (fst second_request) (snd second_request)
         (world_of [Sent] [Recv (errmsg 0 0 @ errmsg 1 (- 13)) 12]) True (Some count_handler)) = Returns 13
   \<and> handled (snd (snd (snd (nlSendMessage (fst second_request) (snd second_request)
         (world_of [Sent] [Recv (errmsg 0 0 @ errmsg 1 (- 13)) 12]) True (Some count_handler))))) = []
   \<and> harg (snd (snd (snd (nlSendMessage (fst second_request) (snd second_request)
         (world_of [Sent] [Recv (errmsg 0 0 @ errmsg 1 (- 13)) 12]) True (Some count_handler))))) = 0"
proof -
  let ?b = "snd second_request"
  let ?bytes = "errmsg 0 0 @ errmsg 1 (- 13)"
  let ?w = "world_of [Sent] [Recv ?bytes 12] :: nat world"
  let ?m = "received (awaiting ?b) ?bytes"
  have len: "length ?bytes = 72"
    by (simp add: errmsg_def nlmsg_def put32_def put16_def)
  have cap: "msgBufferCap (awaiting ?b) = 8192"
    by (simp add: reach_defs del: upt_rec_numeral)
  have s0: "attrDepth (fst second_request) = 0" "NLMSG_HDRLEN \<le> msgBufferLen ?b"
    "msgBufferLen ?b \<le> msgBufferCap ?b" "msgBufferLen ?b < 2 ^ 32"
    "send_loop (sendq ?w) = (None, 1)" "get32 (msgBuffer ?b) 8 = 1"
    by (simp_all add: second_request_eq ctx0_def NLMSG_consts msgBufferCap_def world_of_def get32_def)
  have reach: "scan_steps 1 (Some count_handler) ?m 1 (0, 72, False, 0, []) = Some (36, 36, False, 0, [])"
    by (simp add: reach_defs del: upt_rec_numeral)
  have r: "NLMSG_OK ?m 36 36" "get16 ?m (36 + 4) = NLMSG_ERROR" "get32 ?m (36 + 8) = 1"
    "get32 ?m (36 + 16) = - 13" "36 + NLMSG_HDRLEN + 4 \<le> length ?m"
    by (simp_all add: reach_defs del: upt_rec_numeral)
  have st: "get32 ?m (36 + NLMSG_HDRLEN) = - 13" using r(4) by (simp add: NLMSG_consts)
  have sg: "sint (- 13 :: u32) = - 13" by simp
  have mn: "int (min (length ?bytes) (msgBufferCap (awaiting ?b))) = 72"
    unfolding len cap by simp
  have hw: "harg ?w = 0" "handled ?w = []" "recvq ?w = Recv ?bytes 12 # []"
    by (simp_all add: world_of_def)
  have ne: "?bytes \<noteq> []" using len by auto
  have sz: "12 = sizeof_sockaddr_nl" by (simp add: sizeof_sockaddr_nl_def)
  have reach': "scan_steps 1 (Some count_handler) ?m 1
         (0, int (min (length ?bytes) (msgBufferCap (awaiting ?b))), False, harg ?w, handled ?w) =
         Some (36, 36, False, 0, [])"
    unfolding mn hw by (rule reach)
  have nz: "get32 ?m (36 + NLMSG_HDRLEN) \<noteq> 0" "sint (get32 ?m (36 + NLMSG_HDRLEN)) \<noteq> - (2 ^ 31)"
    unfolding st sg by simp_all
  have hyp: "attrDepth (fst second_request) = 0 \<and> NLMSG_HDRLEN \<le> msgBufferLen ?b
    \<and> msgBufferLen ?b \<le> msgBufferCap ?b
    \<and> msgBufferLen ?b < 2 ^ 32 \<and> send_loop (sendq ?w) = (None, 1)
    \<and> recvq ?w = Recv ?bytes 12 # [] \<and> ?bytes \<noteq> [] \<and> 12 = sizeof_sockaddr_nl
    \<and> 1 = get32 (msgBuffer ?b) 8
    \<and> ?m = received (awaiting ?b) ?bytes
    \<and> scan_steps 1 (Some count_handler) ?m 1
         (0, int (min (length ?bytes) (msgBufferCap (awaiting ?b))), False, harg ?w, handled ?w) =
         Some (36, 36, False, 0, [])
    \<and> NLMSG_OK ?m 36 36 \<and> get16 ?m (36 + 4) = NLMSG_ERROR \<and> get32 ?m (36 + 8) = 1
    \<and> 36 + NLMSG_HDRLEN + 4 \<le> length ?m
    \<and> get32 ?m (36 + NLMSG_HDRLEN) \<noteq> 0 \<and> sint (get32 ?m (36 + NLMSG_HDRLEN)) \<noteq> - (2 ^ 31)"
    using s0(1-5) hw(3) ne sz s0(6) [symmetric] refl [of ?m] reach' r(1-3) r(5) nz
    by (intro conjI)
  note t = kernel_error_decoding [where ctx = "fst second_request" and b = ?b and w = ?w and n = 1
      and bytes = ?bytes and namelen = 12 and q = "[]" and seq = 1 and m = ?m and k = 1
      and handler = "Some count_handler" and nlm = 36 and res = 36 and fnd = False and a = 0 and hs = "[]",
      THEN conjunct2, THEN mp, OF hyp]
  have f: "fst (nlSendMessage (fst second_request) ?b ?w True (Some count_handler)) = Returns 13"
    using t [THEN conjunct1] unfolding st sg by simp
  have hd: "handled (snd (snd (snd (nlSendMessage (fst second_request) ?b ?w True (Some count_handler))))) = []"
    using t [THEN conjunct2, THEN conjunct1] .
  have ha: "harg (snd (snd (snd (nlSendMessage (fst second_request) ?b ?w True (Some count_handler))))) = 0"
    using t [THEN conjunct2, THEN conjunct2, THEN conjunct1] .
  show ?thesis
    using s0 reach r(1-4) f hd ha by (intro conjI)
qed

text \<open>
  An error record behind the end-of-batch record is not decoded: the record at offset 16
  is an error record with the awaited sequence number and status \<open>-13\<close>, the scan stops
  at the record in front of it, the next read finds the socket closed, and the call
  returns \<open>-1\<close>.
\<close>

theorem error_record_behind_sentinel:
  "get32 (msgBuffer (snd second_request)) 8 = 1
   \<and> get16 (nlmsg NLMSG_DONE 1 [] @ errmsg 1 (- 13)) 4 = NLMSG_DONE
   \<and> get16 (nlmsg NLMSG_DONE 1 [] @ errmsg 1 (- 13)) (16 + 4) = NLMSG_ERROR
   \<and> get32 (nlmsg NLMSG_DONE 1 [] @ errmsg 1 (- 13)) (16 + 8) = 1
   \<and> get32 (nlmsg NLMSG_DONE 1 [] @ errmsg 1 (- 13)) (16 + 16) = - 13
   \<and> fst (nlSendMessage (fst second_request) (snd second_request)
         (world_of [Sent] [Recv (nlmsg NLMSG_DONE 1 [] @ errmsg 1 (- 13)) 12, Recv [] 12])
         True (Some count_handler)) = Returns (- 1)"
proof -
  have 1: "get32 (msgBuffer (snd second_request)) 8 = 1"
    "get16 (nlmsg NLMSG_DONE 1 [] @ errmsg 1 (- 13)) 4 = NLMSG_DONE"
    "get16 (nlmsg NLMSG_DONE 1 [] @ errmsg 1 (- 13)) (16 + 4) = NLMSG_ERROR"
    "get32 (nlmsg NLMSG_DONE 1 [] @ errmsg 1 (- 13)) (16 + 8) = 1"
    "get32 (nlmsg NLMSG_DONE 1 [] @ errmsg 1 (- 13)) (16 + 16) = - 13"
    by (simp_all add: second_request_eq errmsg_def nlmsg_def put32_def put16_def get32_def get16_def
        NLMSG_consts NLMSG_DONE_def NLMSG_ERROR_def)
  have 2: "fst (nlSendMessage (fst second_request) (snd second_request)
         (world_of [Sent] [Recv (nlmsg NLMSG_DONE 1 [] @ errmsg 1 (- 13)) 12, Recv [] 12])
         True (Some count_handler)) = Returns (- 1)"
    by (simp add: second_request_eq full_run del: upt_rec_numeral)
  show ?thesis using 1 2 by (intro conjI)
qed

subsection \<open>Reads that fail\<close>

text \<open>
  C2. The claim fails on the code: a read that fails with \<open>ENOBUFS\<close> is not retried. The
  loop compares \<open>res\<close>, which is \<open>-1\<close> here, with \<open>ENOBUFS\<close>, so the branch that warns and
  retries is never taken; \<open>errno\<close> is not \<open>EINTR\<close>, and the call returns \<open>ENOBUFS\<close> (105).
  The acknowledgement that a retry would have read is left unread.
\<close>

theorem enobufs_is_returned:
  "recv_loop seq handler iovlen (RecvErr ENOBUFS # q) b a hs = (Returns ENOBUFS, q, b, a, hs)
   \<and> fst (nlSendMessage (fst first_request) (snd first_request)
         (world_of [Sent] [RecvErr ENOBUFS, Recv (errmsg 0 0) 12]) True None) = Returns ENOBUFS
   \<and> fst (nlSendMessage (fst first_request) (snd first_request)
         (world_of [Sent] [Recv (errmsg 0 0) 12]) True None) = Returns 0"
proof -
  have g: "recv_loop seq handler iovlen (RecvErr ENOBUFS # q) b a hs = (Returns ENOBUFS, q, b, a, hs)"
    by (simp add: ENOBUFS_def EAGAIN_def EINTR_def Let_def)
  have 1: "fst (nlSendMessage (fst first_request) (snd first_request)
         (world_of [Sent] [RecvErr ENOBUFS, Recv (errmsg 0 0) 12]) True None) = Returns ENOBUFS"
    using run_enobufs by (simp only: ENOBUFS_def)
  show ?thesis using g 1 run_ack by (intro conjI)
qed

text \<open>
  C3. The claim fails on the code for \<open>EAGAIN\<close>: the loop compares \<open>res\<close> (\<open>-1\<close>) with
  \<open>EAGAIN\<close> and \<open>errno\<close> with \<open>EINTR\<close>, so only an interrupted read is retried and a read
  that fails with \<open>EAGAIN\<close> returns 11 to the caller. The transmission loop, which tests
  \<open>errno\<close> for both, retries both.
\<close>

theorem eagain_is_returned:
  "recv_loop seq handler iovlen (RecvErr EAGAIN # q) b a hs = (Returns EAGAIN, q, b, a, hs)
   \<and> recv_loop seq handler iovlen (RecvErr EINTR # q) b a hs = recv_loop seq handler iovlen q b a hs
   \<and> fst (nlSendMessage (fst first_request) (snd first_request)
         (world_of [Sent] [RecvErr EAGAIN, Recv (errmsg 0 0) 12]) True None) = Returns EAGAIN
   \<and> fst (nlSendMessage (fst first_request) (snd first_request)
         (world_of [Sent] [RecvErr EINTR, Recv (errmsg 0 0) 12]) True None) = Returns 0
   \<and> fst (nlSendMessage (fst first_request) (snd first_request)
         (world_of [SendErr EAGAIN, SendErr EINTR, Sent] []) False None) = Returns 0"
proof -
  have 1: "fst (nlSendMessage (fst first_request) (snd first_request)
         (world_of [Sent] [RecvErr EAGAIN, Recv (errmsg 0 0) 12]) True None) = Returns EAGAIN"
    by (simp add: first_request_eq ctx0_def send_defs recv_error_step EAGAIN_def EINTR_def
      del: upt_rec_numeral recv_loop.simps)
  have 2: "fst (nlSendMessage (fst first_request) (snd first_request)
         (world_of [Sent] [RecvErr EINTR, Recv (errmsg 0 0) 12]) True None) = Returns 0"
    by (simp add: first_request_eq ctx0_def send_defs errmsg_0 scan_defs scan.simps
      del: upt_rec_numeral)
  have g: "recv_loop seq handler iovlen (RecvErr EAGAIN # q) b a hs = (Returns EAGAIN, q, b, a, hs)"
    by (simp add: ENOBUFS_def EAGAIN_def EINTR_def Let_def)
  have g': "recv_loop seq handler iovlen (RecvErr EINTR # q) b a hs = recv_loop seq handler iovlen q b a hs"
    by (simp add: ENOBUFS_def EAGAIN_def EINTR_def Let_def)
  have 3: "fst (nlSendMessage (fst first_request) (snd first_request)
         (world_of [SendErr EAGAIN, SendErr EINTR, Sent] []) False None) = Returns 0"
    using run_transient_send by (rule conjunct1)
  show ?thesis using g g' 1 2 3 by (intro conjI)
qed

end
